theory Spec2Isabelle
  imports Main "HOL-Library.Word"
begin

unbundle bit_operations_syntax

section \<open>Bytes, sizes and faults\<close>

text \<open>
  The buffer \<^verbatim>\<open>const uint8_t *data\<close> is a list of bytes; a byte is a \<^typ>\<open>char\<close>
  (eight bits).  Values of type \<^verbatim>\<open>size_t\<close> are natural numbers below \<open>2 ^ 64\<close> and an
  \<^verbatim>\<open>int\<close> has 32 bits, as on the usual 64-bit platforms; the subtractions of the source
  that can wrap around are written with \<open>size_sub\<close>.
  The additions of the source (\<^verbatim>\<open>pos + 3\<close>, \<^verbatim>\<open>i++\<close>, \<^verbatim>\<open>link->end++\<close>) stay below a
  bound that is itself a \<^verbatim>\<open>size_t\<close>, or feed a read that faults, so they are plain.

  The C code has no error values of its own, but it has undefined behaviour: a read
  outside the buffer, a failed \<^verbatim>\<open>assert\<close>, an overflowing \<^verbatim>\<open>int\<close> counter.  Each is
  a \<open>fault\<close>, and every function returns \<open>fault + result\<close>.
\<close>

type_synonym byte = char

datatype fault = OutOfBounds | AssertFailed | IntOverflow

definition SIZE_MAX :: nat where
  "SIZE_MAX = 2 ^ 64 - 1"

definition INT_MAX :: nat where
  "INT_MAX = 2 ^ 31 - 1"

definition size_sub :: "nat \<Rightarrow> nat \<Rightarrow> nat" where
  "size_sub a b = (if b \<le> a then a - b else a + 2 ^ 64 - b)"

text \<open>
  \<^verbatim>\<open>data[i]\<close>.  An object has at most \<open>SIZE_MAX\<close> bytes, so the index \<open>SIZE_MAX\<close>
  (what \<^verbatim>\<open>0 - 1\<close> and \<^verbatim>\<open>1 - 2\<close> wrap to) is outside every buffer.
\<close>

definition rd :: "byte list \<Rightarrow> nat \<Rightarrow> fault + byte" where
  "rd data i = (if i < length data \<and> i < SIZE_MAX then Inr (data ! i) else Inl OutOfBounds)"

subsection \<open>The character classes of \<^verbatim>\<open>ctype.h\<close> in the C locale\<close>

definition isalpha :: "byte \<Rightarrow> bool" where
  "isalpha c = (let n = (of_char c :: nat) in (65 \<le> n \<and> n \<le> 90) \<or> (97 \<le> n \<and> n \<le> 122))"

definition isdigit :: "byte \<Rightarrow> bool" where
  "isdigit c = (let n = (of_char c :: nat) in 48 \<le> n \<and> n \<le> 57)"

definition isalnum :: "byte \<Rightarrow> bool" where
  "isalnum c = (isalpha c \<or> isdigit c)"

definition ispunct :: "byte \<Rightarrow> bool" where
  "ispunct c = (let n = (of_char c :: nat) in
     (33 \<le> n \<and> n \<le> 47) \<or> (58 \<le> n \<and> n \<le> 64) \<or> (91 \<le> n \<and> n \<le> 96) \<or> (123 \<le> n \<and> n \<le> 126))"

definition isspace :: "byte \<Rightarrow> bool" where
  "isspace c = (let n = (of_char c :: nat) in n = 32 \<or> (9 \<le> n \<and> n \<le> 13))"

definition tolower :: "byte \<Rightarrow> byte" where
  "tolower c = (let n = (of_char c :: nat) in if 65 \<le> n \<and> n \<le> 90 then char_of (n + 32) else c)"

text \<open>
  \<^verbatim>\<open>strchr(s, c) != NULL\<close>: the terminating NUL of \<open>s\<close> is part of the string, so the
  byte 0 is always found.
\<close>

definition strchr :: "string \<Rightarrow> byte \<Rightarrow> bool" where
  "strchr s c = (c \<in> set s \<or> c = CHR 0x00)"

section \<open>The span\<close>

text \<open>\<^verbatim>\<open>struct autolink_pos { size_t start; size_t end; }\<close>\<close>

record autolink_pos =
  start :: nat
  end' :: nat

text \<open>The bytes a span covers, \<open>data[start .. end)\<close>.\<close>

definition span_bytes :: "byte list \<Rightarrow> autolink_pos \<Rightarrow> byte list" where
  "span_bytes data link = take (end' link - start link) (drop (start link) data)"

section \<open>\<^verbatim>\<open>autolink_issafe\<close>\<close>

definition valid_uris :: "string list" where
  "valid_uris = [''/'', ''http://'', ''https://'', ''ftp://'', ''mailto:'']"

text \<open>
  \<^verbatim>\<open>strncasecmp(link + i, s, strlen(s)) == 0\<close>: bytes are compared after \<open>tolower\<close>,
  one at a time, up to the first difference, a NUL on both sides, or the end of \<open>s\<close>.
\<close>

fun strncasecmp :: "byte list \<Rightarrow> nat \<Rightarrow> string \<Rightarrow> fault + bool" where
  "strncasecmp link i [] = Inr True"
| "strncasecmp link i (u # us) =
     (case rd link i of
        Inl f \<Rightarrow> Inl f
      | Inr c \<Rightarrow>
          if tolower c \<noteq> tolower u then Inr False
          else if c = CHR 0x00 then Inr True
          else strncasecmp link (i + 1) us)"

fun issafe_loop :: "byte list \<Rightarrow> nat \<Rightarrow> string list \<Rightarrow> fault + bool" where
  "issafe_loop link link_len [] = Inr False"
| "issafe_loop link link_len (uri # uris) =
     (let len = length uri in
      if link_len > len then
        (case strncasecmp link 0 uri of
           Inl f \<Rightarrow> Inl f
         | Inr same \<Rightarrow>
             if same then
               (case rd link len of
                  Inl f \<Rightarrow> Inl f
                | Inr c \<Rightarrow> if isalnum c then Inr True else issafe_loop link link_len uris)
             else issafe_loop link link_len uris)
      else issafe_loop link link_len uris)"

definition autolink_issafe :: "byte list \<Rightarrow> nat \<Rightarrow> fault + bool" where
  "autolink_issafe link link_len = issafe_loop link link_len valid_uris"

text \<open>
  What the specification of the safety check calls beginning with a prefix, ASCII
  case-insensitively: each of the first bytes of the slice is the byte of the prefix at
  its place, or both are the same letter in different case (32 apart).
\<close>

definition eq_nocase :: "byte \<Rightarrow> byte \<Rightarrow> bool" where
  "eq_nocase a b =
     (a = b \<or>
      (isalpha a \<and> isalpha b \<and>
       ((of_char a :: nat) = of_char b + 32 \<or> (of_char b :: nat) = of_char a + 32)))"

definition begins_nocase :: "byte list \<Rightarrow> string \<Rightarrow> bool" where
  "begins_nocase link p = (length p \<le> length link \<and> list_all2 eq_nocase (take (length p) link) p)"

section \<open>\<^verbatim>\<open>autolink_delim\<close>\<close>

text \<open>
  The first loop: \<^verbatim>\<open>for (i = link->start; i < link->end; ++i) if (data[i] == '<') { link->end = i; break; }\<close>
\<close>

function delim_cut :: "byte list \<Rightarrow> nat \<Rightarrow> autolink_pos \<Rightarrow> fault + autolink_pos" where
  "delim_cut data i link =
     (if i < end' link then
        (case rd data i of
           Inl f \<Rightarrow> Inl f
         | Inr c \<Rightarrow>
             if c = CHR ''<'' then Inr (link\<lparr>end' := i\<rparr>)
             else delim_cut data (i + 1) link)
      else Inr link)"
  by pat_completeness auto
termination
  by (relation "measure (\<lambda>(data, i, link). end' link - i)") auto

text \<open>\<^verbatim>\<open>while (new_end > 0 && isalpha(data[new_end])) new_end--;\<close>\<close>

function entity_walk :: "byte list \<Rightarrow> nat \<Rightarrow> fault + nat" where
  "entity_walk data new_end =
     (if new_end > 0 then
        (case rd data new_end of
           Inl f \<Rightarrow> Inl f
         | Inr c \<Rightarrow> if isalpha c then entity_walk data (new_end - 1) else Inr new_end)
      else Inr new_end)"
  by pat_completeness auto
termination
  by (relation "measure (\<lambda>(data, new_end). new_end)") auto

text \<open>
  The trimming loop \<^verbatim>\<open>while (link->end > link->start) { ... }\<close>.  Inside the loop
  \<^verbatim>\<open>link->end - 1\<close> cannot wrap; \<^verbatim>\<open>link->end - 2\<close> wraps when \<open>end\<close> is 1.
\<close>

function delim_trim :: "byte list \<Rightarrow> autolink_pos \<Rightarrow> fault + autolink_pos" where
  "delim_trim data link =
     (if end' link > start link then
        (case rd data (end' link - 1) of
           Inl f \<Rightarrow> Inl f
         | Inr c \<Rightarrow>
             if strchr ''?!.,:'' c then delim_trim data (link\<lparr>end' := end' link - 1\<rparr>)
             else if c = CHR '';'' then
               (case entity_walk data (size_sub (end' link) 2) of
                  Inl f \<Rightarrow> Inl f
                | Inr new_end \<Rightarrow>
                    if new_end < size_sub (end' link) 2 then
                      (case rd data new_end of
                         Inl f \<Rightarrow> Inl f
                       | Inr a \<Rightarrow>
                           if a = CHR ''&'' then delim_trim data (link\<lparr>end' := new_end\<rparr>)
                           else delim_trim data (link\<lparr>end' := end' link - 1\<rparr>))
                    else delim_trim data (link\<lparr>end' := end' link - 1\<rparr>))
             else Inr link)
      else Inr link)"
  by pat_completeness auto
termination
proof (relation "measure (\<lambda>(data, link). end' link)", goal_cases)
  case 1
  show ?case by simp
next
  case (2 data link c)
  then show ?case by simp
next
  case (3 data link c new_end a)
  have "2 \<le> end' link"
  proof (cases "end' link = 1")
    case True
    with 3(5) show ?thesis by (simp add: size_sub_def rd_def SIZE_MAX_def)
  next
    case False
    with 3(1) show ?thesis by simp
  qed
  with 3(6) show ?case by (simp add: size_sub_def)
next
  case (4 data link c new_end a)
  then show ?case by simp
next
  case (5 data link c new_end)
  then show ?case by simp
qed

text \<open>The switch on \<^verbatim>\<open>cclose\<close>; \<^verbatim>\<open>copen\<close> stays 0 for every other byte.\<close>

definition copen_of :: "byte \<Rightarrow> byte" where
  "copen_of cclose =
     (if cclose = CHR 0x22 then CHR 0x22
      else if cclose = CHR 0x27 then CHR 0x27
      else if cclose = CHR '')'' then CHR ''(''
      else if cclose = CHR '']'' then CHR ''[''
      else if cclose = CHR ''}'' then CHR ''{''
      else CHR 0x00)"

text \<open>
  The counting loop: a byte equal to \<^verbatim>\<open>copen\<close> counts as an opening, and only
  otherwise can it count as a closing.
\<close>

function delim_count :: "byte list \<Rightarrow> byte \<Rightarrow> byte \<Rightarrow> nat \<Rightarrow> nat \<Rightarrow> nat \<Rightarrow> nat \<Rightarrow> fault + (nat \<times> nat)" where
  "delim_count data copen cclose i e opening closing =
     (if i < e then
        (case rd data i of
           Inl f \<Rightarrow> Inl f
         | Inr c \<Rightarrow>
             if c = copen then delim_count data copen cclose (i + 1) e (opening + 1) closing
             else if c = cclose then delim_count data copen cclose (i + 1) e opening (closing + 1)
             else delim_count data copen cclose (i + 1) e opening closing)
      else Inr (opening, closing))"
  by pat_completeness auto
termination
  by (relation "measure (\<lambda>(data, copen, cclose, i, e, opening, closing). e - i)") auto

text \<open>
  Everything after \<^verbatim>\<open>if (link->end == link->start) return false;\<close>.  Here
  \<^verbatim>\<open>link->end - 1\<close> wraps when \<open>end\<close> is 0.
\<close>

definition delim_balance :: "byte list \<Rightarrow> autolink_pos \<Rightarrow> fault + (bool \<times> autolink_pos)" where
  "delim_balance data link =
     (case rd data (size_sub (end' link) 1) of
        Inl f \<Rightarrow> Inl f
      | Inr cclose \<Rightarrow>
          let copen = copen_of cclose in
          if copen \<noteq> CHR 0x00 then
            (case delim_count data copen cclose (start link) (end' link) 0 0 of
               Inl f \<Rightarrow> Inl f
             | Inr (opening, closing) \<Rightarrow>
                 if closing \<noteq> opening then Inr (True, link\<lparr>end' := end' link - 1\<rparr>)
                 else Inr (True, link))
          else Inr (True, link))"

definition autolink_delim :: "byte list \<Rightarrow> autolink_pos \<Rightarrow> fault + (bool \<times> autolink_pos)" where
  "autolink_delim data link =
     (case delim_cut data (start link) link of
        Inl f \<Rightarrow> Inl f
      | Inr cut_link \<Rightarrow>
          (case delim_trim data cut_link of
             Inl f \<Rightarrow> Inl f
           | Inr trimmed \<Rightarrow>
               if end' trimmed = start trimmed then Inr (False, trimmed)
               else delim_balance data trimmed))"

section \<open>\<^verbatim>\<open>check_domain\<close>\<close>

text \<open>
  \<^verbatim>\<open>for (i = link->start + 1; i < size - 1; ++i) { if (data[i] == '.') np++; else if (!isalnum(data[i]) && data[i] != '-') break; }\<close>
  The bound \<^verbatim>\<open>size - 1\<close> wraps when \<open>size\<close> is 0.
\<close>

function domain_loop :: "byte list \<Rightarrow> nat \<Rightarrow> nat \<Rightarrow> nat \<Rightarrow> fault + (nat \<times> nat)" where
  "domain_loop data sz i np =
     (if i < size_sub sz 1 then
        (case rd data i of
           Inl f \<Rightarrow> Inl f
         | Inr c \<Rightarrow>
             if c = CHR ''.'' then domain_loop data sz (i + 1) (np + 1)
             else if \<not> isalnum c \<and> c \<noteq> CHR ''-'' then Inr (i, np)
             else domain_loop data sz (i + 1) np)
      else Inr (i, np))"
  by pat_completeness auto
termination
  by (relation "measure (\<lambda>(data, sz, i, np). size_sub sz 1 - i)") auto

definition check_domain :: "byte list \<Rightarrow> nat \<Rightarrow> autolink_pos \<Rightarrow> bool \<Rightarrow> fault + (bool \<times> autolink_pos)" where
  "check_domain data sz link allow_short =
     (case rd data (start link) of
        Inl f \<Rightarrow> Inl f
      | Inr c \<Rightarrow>
          if \<not> isalnum c then Inr (False, link)
          else
            (case domain_loop data sz (start link + 1) 0 of
               Inl f \<Rightarrow> Inl f
             | Inr (i, np) \<Rightarrow>
                 if allow_short then Inr (True, link\<lparr>end' := i\<rparr>)
                 else Inr (np > 0, link\<lparr>end' := i\<rparr>)))"

text \<open>
  The bytes a hostname is made of, and the span end that the specification of
  the domain validator describes: the offset of the first byte at or after
  \<open>start + 1\<close> and before \<open>length - 1\<close> that is no such byte, or \<open>length - 1\<close> when
  there is none.
\<close>

definition domain_char :: "byte \<Rightarrow> bool" where
  "domain_char c = (isalnum c \<or> c = CHR ''-'' \<or> c = CHR ''.'')"

definition claimed_domain_end :: "byte list \<Rightarrow> nat \<Rightarrow> nat \<Rightarrow> nat" where
  "claimed_domain_end data sz s =
     (case find (\<lambda>j. \<not> domain_char (data ! j)) [s + 1 ..< sz - 1] of
        Some j \<Rightarrow> j
      | None \<Rightarrow> sz - 1)"

text \<open>
  The bytes the backward walk of the email matcher passes over (as the code has it, the
  NUL of \<open>strchr\<close> included), and the bytes its forward scan passes over.
\<close>

definition local_char :: "byte \<Rightarrow> bool" where
  "local_char c = (isalnum c \<or> strchr ''.+-_'' c)"

definition scan_char :: "byte \<Rightarrow> bool" where
  "scan_char c = (isalnum c \<or> c = CHR ''@'' \<or> c = CHR ''.'' \<or> c = CHR ''-'' \<or> c = CHR ''_'')"

section \<open>The matchers\<close>

text \<open>\<^verbatim>\<open>while (link->end < size && !isspace(data[link->end])) link->end++;\<close>\<close>

function extend_end :: "byte list \<Rightarrow> nat \<Rightarrow> autolink_pos \<Rightarrow> fault + autolink_pos" where
  "extend_end data sz link =
     (if end' link < sz then
        (case rd data (end' link) of
           Inl f \<Rightarrow> Inl f
         | Inr c \<Rightarrow>
             if \<not> isspace c then extend_end data sz (link\<lparr>end' := end' link + 1\<rparr>)
             else Inr link)
      else Inr link)"
  by pat_completeness auto
termination
  by (relation "measure (\<lambda>(data, sz, link). sz - end' link)") auto

text \<open>
  \<^verbatim>\<open>memcmp(data + i, s, strlen(s)) == 0\<close>; \<^verbatim>\<open>memcmp\<close> may read all the bytes it is
  given.
\<close>

fun memcmp :: "byte list \<Rightarrow> nat \<Rightarrow> string \<Rightarrow> fault + bool" where
  "memcmp data i [] = Inr True"
| "memcmp data i (u # us) =
     (case rd data i of
        Inl f \<Rightarrow> Inl f
      | Inr c \<Rightarrow>
          (case memcmp data (i + 1) us of
             Inl f \<Rightarrow> Inl f
           | Inr same \<Rightarrow> Inr (c = u \<and> same)))"

subsection \<open>\<^verbatim>\<open>autolink__www\<close>\<close>

text \<open>
  The matchers write the span through the pointer \<^verbatim>\<open>link\<close>; the model takes the
  span as it is before the call and returns it as it is after, with the result.
\<close>

definition autolink__www ::
  "autolink_pos \<Rightarrow> byte list \<Rightarrow> nat \<Rightarrow> nat \<Rightarrow> 32 word \<Rightarrow> fault + (bool \<times> autolink_pos)" where
  "autolink__www link data pos sz flags =
     (case (if pos > 0 then
              (case rd data (pos - 1) of
                 Inl f \<Rightarrow> Inl f
               | Inr c \<Rightarrow> Inr (\<not> ispunct c \<and> \<not> isspace c))
            else Inr False) of
        Inl f \<Rightarrow> Inl f
      | Inr glued \<Rightarrow>
          if glued then Inr (False, link)
          else if size_sub sz pos < 4 then Inr (False, link)
          else
            (case memcmp data pos ''www.'' of
               Inl f \<Rightarrow> Inl f
             | Inr same \<Rightarrow>
                 if \<not> same then Inr (False, link)
                 else
                   (case check_domain data sz (link\<lparr>start := pos, end' := 0\<rparr>) False of
                      Inl f \<Rightarrow> Inl f
                    | Inr (ok, link1) \<Rightarrow>
                        if \<not> ok then Inr (False, link1)
                        else
                          (case extend_end data sz link1 of
                             Inl f \<Rightarrow> Inl f
                           | Inr link2 \<Rightarrow> autolink_delim data link2))))"

subsection \<open>\<^verbatim>\<open>autolink__email\<close>\<close>

text \<open>
  \<^verbatim>\<open>for (; link->start > 0; link->start--) { c = data[link->start - 1]; if (isalnum(c)) continue; if (strchr(".+-_", c) != NULL) continue; break; }\<close>
\<close>

function email_rewind :: "byte list \<Rightarrow> autolink_pos \<Rightarrow> fault + autolink_pos" where
  "email_rewind data link =
     (if start link > 0 then
        (case rd data (start link - 1) of
           Inl f \<Rightarrow> Inl f
         | Inr c \<Rightarrow>
             if isalnum c then email_rewind data (link\<lparr>start := start link - 1\<rparr>)
             else if strchr ''.+-_'' c then email_rewind data (link\<lparr>start := start link - 1\<rparr>)
             else Inr link)
      else Inr link)"
  by pat_completeness auto
termination
  by (relation "measure (\<lambda>(data, link). start link)") auto

text \<open>
  The forward loop, with the counters \<^verbatim>\<open>int nb, np\<close>: incrementing an \<^verbatim>\<open>int\<close> that is
  \<open>INT_MAX\<close> is undefined.  Inside the loop \<^verbatim>\<open>size - 1\<close> cannot wrap.  The matcher
  then tests \<^verbatim>\<open>(link->end - pos) < 2 || nb != 1 || np == 0\<close>, from left to right.
\<close>

function email_scan :: "byte list \<Rightarrow> nat \<Rightarrow> autolink_pos \<Rightarrow> nat \<Rightarrow> nat \<Rightarrow> fault + (autolink_pos \<times> nat \<times> nat)" where
  "email_scan data sz link nb np =
     (if end' link < sz then
        (case rd data (end' link) of
           Inl f \<Rightarrow> Inl f
         | Inr c \<Rightarrow>
             if isalnum c then email_scan data sz (link\<lparr>end' := end' link + 1\<rparr>) nb np
             else if c = CHR ''@'' then
               (if nb = INT_MAX then Inl IntOverflow
                else email_scan data sz (link\<lparr>end' := end' link + 1\<rparr>) (nb + 1) np)
             else if c = CHR ''.'' \<and> end' link < sz - 1 then
               (if np = INT_MAX then Inl IntOverflow
                else email_scan data sz (link\<lparr>end' := end' link + 1\<rparr>) nb (np + 1))
             else if c \<noteq> CHR ''-'' \<and> c \<noteq> CHR ''_'' then Inr (link, nb, np)
             else email_scan data sz (link\<lparr>end' := end' link + 1\<rparr>) nb np)
      else Inr (link, nb, np))"
  by pat_completeness auto
termination
  by (relation "measure (\<lambda>(data, sz, link, nb, np). sz - end' link)") auto

definition autolink__email ::
  "autolink_pos \<Rightarrow> byte list \<Rightarrow> nat \<Rightarrow> nat \<Rightarrow> 32 word \<Rightarrow> fault + (bool \<times> autolink_pos)" where
  "autolink__email link data pos sz flags =
     (case email_rewind data (link\<lparr>start := pos, end' := pos\<rparr>) of
        Inl f \<Rightarrow> Inl f
      | Inr link1 \<Rightarrow>
          if start link1 = pos then Inr (False, link1)
          else
            (case email_scan data sz link1 0 0 of
               Inl f \<Rightarrow> Inl f
             | Inr (link2, nb, np) \<Rightarrow>
                 if size_sub (end' link2) pos < 2 then Inr (False, link2)
                 else if nb \<noteq> 1 then Inr (False, link2)
                 else if np = 0 then Inr (False, link2)
                 else autolink_delim data link2))"

subsection \<open>\<^verbatim>\<open>autolink__url\<close>\<close>

text \<open>
  Modelled from the spec: the header \<^verbatim>\<open>autolink.h\<close>, which declares the flag
  \<^verbatim>\<open>AUTOLINK_SHORT_DOMAINS\<close>, is not among the sources.  The spec calls it the one
  recognised bit of the flag set, "allow domains without a dot"; it is taken to be the
  lowest bit.  No theorem below depends on which bit it is.
\<close>

definition AUTOLINK_SHORT_DOMAINS :: "32 word" where
  "AUTOLINK_SHORT_DOMAINS = 1"

text \<open>\<^verbatim>\<open>while (link->start && isalpha(data[link->start - 1])) link->start--;\<close>\<close>

function url_rewind :: "byte list \<Rightarrow> autolink_pos \<Rightarrow> fault + autolink_pos" where
  "url_rewind data link =
     (if start link \<noteq> 0 then
        (case rd data (start link - 1) of
           Inl f \<Rightarrow> Inl f
         | Inr c \<Rightarrow>
             if isalpha c then url_rewind data (link\<lparr>start := start link - 1\<rparr>)
             else Inr link)
      else Inr link)"
  by pat_completeness auto
termination
  by (relation "measure (\<lambda>(data, link). start link)") auto

text \<open>
  \<^verbatim>\<open>data[pos + 1] != '/' || data[pos + 2] != '/'\<close>, the second byte read only when
  the first is a slash.  The matcher begins with \<^verbatim>\<open>assert(data[pos] == ':')\<close>, which
  is taken to be compiled in.
\<close>

definition no_slashes :: "byte list \<Rightarrow> nat \<Rightarrow> fault + bool" where
  "no_slashes data pos =
     (case rd data (pos + 1) of
        Inl f \<Rightarrow> Inl f
      | Inr c1 \<Rightarrow>
          if c1 \<noteq> CHR ''/'' then Inr True
          else
            (case rd data (pos + 2) of
               Inl f \<Rightarrow> Inl f
             | Inr c2 \<Rightarrow> Inr (c2 \<noteq> CHR ''/'')))"

definition autolink__url ::
  "autolink_pos \<Rightarrow> byte list \<Rightarrow> nat \<Rightarrow> nat \<Rightarrow> 32 word \<Rightarrow> fault + (bool \<times> autolink_pos)" where
  "autolink__url link data pos sz flags =
     (case rd data pos of
        Inl f \<Rightarrow> Inl f
      | Inr c \<Rightarrow>
          if c \<noteq> CHR '':'' then Inl AssertFailed
          else if size_sub sz pos < 4 then Inr (False, link)
          else
            (case no_slashes data pos of
               Inl f \<Rightarrow> Inl f
             | Inr differ \<Rightarrow>
                 if differ then Inr (False, link)
                 else
                   (case check_domain data sz (link\<lparr>start := pos + 3, end' := 0\<rparr>)
                           (flags AND AUTOLINK_SHORT_DOMAINS \<noteq> 0) of
                      Inl f \<Rightarrow> Inl f
                    | Inr (ok, link1) \<Rightarrow>
                        if \<not> ok then Inr (False, link1)
                        else
                          (case extend_end data sz link1 of
                             Inl f \<Rightarrow> Inl f
                           | Inr link2 \<Rightarrow>
                               (case url_rewind data (link2\<lparr>start := pos\<rparr>) of
                                  Inl f \<Rightarrow> Inl f
                                | Inr link3 \<Rightarrow>
                                    (case autolink_issafe (drop (start link3) data)
                                            (size_sub sz (start link3)) of
                                       Inl f \<Rightarrow> Inl f
                                     | Inr safe \<Rightarrow>
                                         if \<not> safe then Inr (False, link3)
                                         else autolink_delim data link3))))))"

section \<open>Reads, bytes and the loops of the trimmer\<close>

text \<open>
  The loops are unfolded one step at a time (\<open>subst\<close> of their equation), so their
  equations leave the simplifier's rules.
\<close>

declare delim_cut.simps [simp del] entity_walk.simps [simp del] delim_trim.simps [simp del]
  delim_count.simps [simp del] domain_loop.simps [simp del] extend_end.simps [simp del]
  email_rewind.simps [simp del] email_scan.simps [simp del] url_rewind.simps [simp del]

lemma rd_in: "i < length data \<Longrightarrow> length data \<le> SIZE_MAX \<Longrightarrow> rd data i = Inr (data ! i)"
  by (simp add: rd_def)

lemma rd_InrD: "rd data i = Inr c \<Longrightarrow> i < length data \<and> c = data ! i"
  by (auto simp: rd_def split: if_splits)

lemma of_char_tolower:
  "(of_char (tolower c) :: nat) =
     (if 65 \<le> (of_char c :: nat) \<and> (of_char c :: nat) \<le> 90 then of_char c + 32 else of_char c)"
  by (simp add: tolower_def Let_def)

lemma tolower_nonalpha: "\<not> isalpha u \<Longrightarrow> tolower c = tolower u \<Longrightarrow> c = u"
proof -
  assume u: "\<not> isalpha u" and eq: "tolower c = tolower u"
  from eq have "(of_char (tolower c) :: nat) = of_char (tolower u)" by simp
  with u have "(of_char c :: nat) = of_char u"
    by (auto simp: of_char_tolower isalpha_def Let_def split: if_splits)
  then show "c = u" by simp
qed

lemma tolower_eq_iff: "tolower a = tolower b \<longleftrightarrow> eq_nocase a b"
proof -
  have "tolower a = tolower b \<longleftrightarrow> (of_char (tolower a) :: nat) = of_char (tolower b)"
    by simp
  also have "\<dots> \<longleftrightarrow> eq_nocase a b"
    unfolding of_char_tolower eq_nocase_def isalpha_def Let_def
    by (auto simp: of_char_eq_iff [where ?'a = nat, symmetric] simp del: of_char_eq_iff)
  finally show ?thesis .
qed

lemma map_tolower_eq: "map tolower xs = map tolower ys \<longleftrightarrow> list_all2 eq_nocase xs ys"
  by (auto simp: list_eq_iff_nth_eq list_all2_conv_all_nth tolower_eq_iff)

lemma cut_spec:
  assumes "length data \<le> SIZE_MAX" "end' link \<le> length data"
  shows "\<exists>l. delim_cut data i link = Inr l \<and> start l = start link \<and> end' l \<le> end' link \<and>
           (i \<le> end' link \<longrightarrow> i \<le> end' l) \<and>
           (\<forall>j. i \<le> j \<and> j < end' l \<longrightarrow> data ! j \<noteq> CHR ''<'') \<and>
           (end' l < end' link \<longrightarrow> i \<le> end' l \<and> data ! end' l = CHR ''<'')"
  using assms
proof (induction data i link rule: delim_cut.induct)
  case (1 data i link)
  show ?case
  proof (cases "i < end' link")
    case False
    then show ?thesis by (subst delim_cut.simps) auto
  next
    case True
    with "1.prems" have r: "rd data i = Inr (data ! i)" by (simp add: rd_in)
    show ?thesis
    proof (cases "data ! i = CHR ''<''")
      case lt: True
      with r True show ?thesis by (subst delim_cut.simps) auto
    next
      case False
      from "1.IH" [OF True r False "1.prems"] obtain l where
        l: "delim_cut data (i + 1) link = Inr l" "start l = start link" "end' l \<le> end' link"
          "i + 1 \<le> end' l"
          "\<forall>j. i + 1 \<le> j \<and> j < end' l \<longrightarrow> data ! j \<noteq> CHR ''<''"
          "end' l < end' link \<longrightarrow> i + 1 \<le> end' l \<and> data ! end' l = CHR ''<''"
        using True by auto
      have "\<forall>j. i \<le> j \<and> j < end' l \<longrightarrow> data ! j \<noteq> CHR ''<''"
      proof (intro allI impI)
        fix j assume "i \<le> j \<and> j < end' l"
        then have "j = i \<or> (i + 1 \<le> j \<and> j < end' l)" by auto
        with False l(5) show "data ! j \<noteq> CHR ''<''" by auto
      qed
      with l r False True show ?thesis by (subst delim_cut.simps) auto
    qed
  qed
qed

lemma cut_floor:
  assumes "length data \<le> SIZE_MAX" "end' link \<le> length data"
    and "\<forall>j. start link \<le> j \<and> j < k \<longrightarrow> data ! j \<noteq> CHR ''<''"
    and "start link \<le> k" "k \<le> end' link"
  shows "\<exists>l. delim_cut data (start link) link = Inr l \<and> start l = start link \<and> k \<le> end' l \<and> end' l \<le> end' link"
proof -
  from cut_spec [OF assms(1,2), of "start link"] obtain l where
    l: "delim_cut data (start link) link = Inr l" "start l = start link" "end' l \<le> end' link"
       "end' l < end' link \<longrightarrow> start link \<le> end' l \<and> data ! end' l = CHR ''<''"
    by blast
  have "k \<le> end' l"
  proof (rule ccontr)
    assume "\<not> k \<le> end' l"
    then have "end' l < k" by simp
    with assms(5) l(4) have "start link \<le> end' l \<and> data ! end' l = CHR ''<''" by simp
    with assms(3) \<open>end' l < k\<close> show False by blast
  qed
  with l show ?thesis by blast
qed

lemma entity_walk_spec:
  assumes "length data \<le> SIZE_MAX" "n < length data"
  shows "\<exists>m. entity_walk data n = Inr m \<and> m \<le> n \<and> (\<forall>j. m < j \<and> j \<le> n \<longrightarrow> isalpha (data ! j)) \<and>
           (m = 0 \<or> \<not> isalpha (data ! m))"
  using assms
proof (induction data n rule: entity_walk.induct)
  case (1 data n)
  show ?case
  proof (cases "n > 0")
    case False
    then show ?thesis by (subst entity_walk.simps) auto
  next
    case True
    from "1.prems" have r: "rd data n = Inr (data ! n)" by (simp add: rd_in)
    show ?thesis
    proof (cases "isalpha (data ! n)")
      case False
      with r True show ?thesis by (subst entity_walk.simps) auto
    next
      case al: True
      from "1.prems" have "n - 1 < length data" by simp
      from "1.IH" [OF True r al "1.prems"(1) this] obtain m where
        m: "entity_walk data (n - 1) = Inr m" "m \<le> n - 1"
           "\<forall>j. m < j \<and> j \<le> n - 1 \<longrightarrow> isalpha (data ! j)" "m = 0 \<or> \<not> isalpha (data ! m)"
        by blast
      have "\<forall>j. m < j \<and> j \<le> n \<longrightarrow> isalpha (data ! j)"
      proof (intro allI impI)
        fix j assume "m < j \<and> j \<le> n"
        then have "j = n \<or> (m < j \<and> j \<le> n - 1)" by auto
        with al m(3) show "isalpha (data ! j)" by auto
      qed
      with m r al True show ?thesis by (subst entity_walk.simps) auto
    qed
  qed
qed

lemma entity_walk_wrapped: "entity_walk data (size_sub e 2) = Inr m \<Longrightarrow> 0 < e \<Longrightarrow> 2 \<le> e"
proof (cases "e = 1")
  case True
  assume "entity_walk data (size_sub e 2) = Inr m"
  with True have "entity_walk data SIZE_MAX = Inr m" by (simp add: size_sub_def SIZE_MAX_def)
  then show ?thesis by (subst (asm) entity_walk.simps) (simp add: rd_def SIZE_MAX_def)
next
  case False
  assume "0 < e"
  with False show ?thesis by simp
qed

lemma trim_le: "delim_trim data link = Inr l \<Longrightarrow> start l = start link \<and> end' l \<le> end' link"
proof (induction data link arbitrary: l rule: delim_trim.induct)
  case (1 data link)
  show ?case
  proof (cases "end' link > start link")
    case False
    with "1.prems" show ?thesis by (simp add: delim_trim.simps [of data link])
  next
    case True
    with "1.prems" obtain c where c: "rd data (end' link - 1) = Inr c"
      by (cases "rd data (end' link - 1)") (auto simp: delim_trim.simps [of data link])
    note step = "1.prems" [unfolded delim_trim.simps [of data link]]
    show ?thesis
    proof (cases "strchr ''?!.,:'' c")
      case p: True
      with step True c have "delim_trim data (link\<lparr>end' := end' link - 1\<rparr>) = Inr l" by simp
      from "1.IH"(1) [OF True c p this] show ?thesis by auto
    next
      case np: False
      show ?thesis
      proof (cases "c = CHR '';''")
        case False
        with step True c np show ?thesis by auto
      next
        case semi: True
        with step True c np obtain m where m: "entity_walk data (size_sub (end' link) 2) = Inr m"
          by (cases "entity_walk data (size_sub (end' link) 2)") auto
        from entity_walk_wrapped [OF m] True have e2: "2 \<le> end' link" by simp
        show ?thesis
        proof (cases "m < size_sub (end' link) 2")
          case False
          with step True c np semi m have "delim_trim data (link\<lparr>end' := end' link - 1\<rparr>) = Inr l"
            by simp
          from "1.IH"(4) [OF True c np semi m False this] show ?thesis by auto
        next
          case less: True
          with step True c np semi m obtain a where a: "rd data m = Inr a"
            by (cases "rd data m") auto
          show ?thesis
          proof (cases "a = CHR ''&''")
            case amp: True
            with step True c np semi m less a have "delim_trim data (link\<lparr>end' := m\<rparr>) = Inr l"
              by simp
            from "1.IH"(2) [OF True c np semi m less a amp this] less e2 show ?thesis
              by (auto simp: size_sub_def)
          next
            case False
            with step True c np semi m less a
            have "delim_trim data (link\<lparr>end' := end' link - 1\<rparr>) = Inr l" by simp
            from "1.IH"(3) [OF True c np semi m less a False this] show ?thesis by auto
          qed
        qed
      qed
    qed
  qed
qed

lemma trim_fixed: "delim_trim data link = Inr l \<Longrightarrow> delim_trim data l = Inr l"
proof (induction data link arbitrary: l rule: delim_trim.induct)
  case (1 data link)
  show ?case
  proof (cases "end' link > start link")
    case False
    with "1.prems" have "l = link" by (simp add: delim_trim.simps [of data link])
    with "1.prems" show ?thesis by simp
  next
    case True
    with "1.prems" obtain c where c: "rd data (end' link - 1) = Inr c"
      by (cases "rd data (end' link - 1)") (auto simp: delim_trim.simps [of data link])
    note step = "1.prems" [unfolded delim_trim.simps [of data link]]
    show ?thesis
    proof (cases "strchr ''?!.,:'' c")
      case p: True
      with step True c have "delim_trim data (link\<lparr>end' := end' link - 1\<rparr>) = Inr l" by simp
      from "1.IH"(1) [OF True c p this] show ?thesis .
    next
      case np: False
      show ?thesis
      proof (cases "c = CHR '';''")
        case False
        with step True c np have "l = link" by auto
        with "1.prems" show ?thesis by simp
      next
        case semi: True
        with step True c np obtain m where m: "entity_walk data (size_sub (end' link) 2) = Inr m"
          by (cases "entity_walk data (size_sub (end' link) 2)") auto
        show ?thesis
        proof (cases "m < size_sub (end' link) 2")
          case False
          with step True c np semi m have "delim_trim data (link\<lparr>end' := end' link - 1\<rparr>) = Inr l"
            by simp
          from "1.IH"(4) [OF True c np semi m False this] show ?thesis .
        next
          case less: True
          with step True c np semi m obtain a where a: "rd data m = Inr a"
            by (cases "rd data m") auto
          show ?thesis
          proof (cases "a = CHR ''&''")
            case amp: True
            with step True c np semi m less a have "delim_trim data (link\<lparr>end' := m\<rparr>) = Inr l"
              by simp
            from "1.IH"(2) [OF True c np semi m less a amp this] show ?thesis .
          next
            case False
            with step True c np semi m less a
            have "delim_trim data (link\<lparr>end' := end' link - 1\<rparr>) = Inr l" by simp
            from "1.IH"(3) [OF True c np semi m less a False this] show ?thesis .
          qed
        qed
      qed
    qed
  qed
qed

lemma trim_floor:
  assumes "length data \<le> SIZE_MAX"
    and "\<not> strchr ''?!.,:'' (data ! (k - 1))" "data ! (k - 1) \<noteq> CHR '';''"
    and "b \<le> k" "b < length data" "\<not> isalpha (data ! b)" "data ! b \<noteq> CHR '';''"
    and "\<forall>j. b \<le> j \<and> j < k \<longrightarrow> data ! j \<noteq> CHR ''&''"
    and "k \<le> end' link" "end' link \<le> length data" "start link < k"
  shows "\<exists>l. delim_trim data link = Inr l \<and> start l = start link \<and> k \<le> end' l \<and> end' l \<le> end' link"
  using assms
proof (induction data link rule: delim_trim.induct)
  case (1 data link)
  note L = "1.prems"(1) and solid = "1.prems"(2,3) and bar = "1.prems"(4-8)
    and ke = "1.prems"(9) and el = "1.prems"(10) and sk = "1.prems"(11)
  define e where "e = end' link"
  from ke sk have True: "end' link > start link" by simp
  from ke sk el have e1: "e - 1 < length data" "0 < e" by (simp_all add: e_def)
  then have c: "rd data (end' link - 1) = Inr (data ! (e - 1))" using L by (simp add: rd_in e_def)
  show ?case
  proof (cases "strchr ''?!.,:'' (data ! (e - 1))")
    case p: True
    with solid(1) have "e - 1 \<noteq> k - 1" by auto
    with ke sk have k1: "k \<le> end' link - 1" by (simp add: e_def)
    from el have el1: "end' link - 1 \<le> length data" by arith
    from "1.IH"(1) [OF True c p L solid bar] k1 el1 sk obtain l where
      l: "delim_trim data (link\<lparr>end' := end' link - 1\<rparr>) = Inr l" "start l = start link"
      "k \<le> end' l" "end' l \<le> end' link - 1"
      by auto
    from l(4) have "end' l \<le> end' link" by arith
    with l True c p show ?thesis by (subst delim_trim.simps) auto
  next
    case np: False
    show ?thesis
    proof (cases "data ! (e - 1) = CHR '';''")
      case False
      with True c np ke show ?thesis by (subst delim_trim.simps) auto
    next
      case semi: True
      with solid(2) have "e - 1 \<noteq> k - 1" by auto
      with ke sk have k1: "k \<le> end' link - 1" by (simp add: e_def)
      from el have el1: "end' link - 1 \<le> length data" by arith
      from k1 sk have e2: "2 \<le> e" by (simp add: e_def)
      then have ss: "size_sub (end' link) 2 = e - 2" by (simp add: size_sub_def e_def)
      from bar(4) semi have "b \<noteq> e - 1" by auto
      with bar(1) k1 have b2: "b \<le> e - 2" by (simp add: e_def)
      from e1 have "e - 2 < length data" by simp
      from entity_walk_spec [OF L this] obtain m where
        m: "entity_walk data (e - 2) = Inr m" "m \<le> e - 2"
           "\<forall>j. m < j \<and> j \<le> e - 2 \<longrightarrow> isalpha (data ! j)"
        by blast
      from m(3) bar(3) b2 have bm: "b \<le> m" by (meson not_le_imp_less)
      from m(1) ss have mw: "entity_walk data (size_sub (end' link) 2) = Inr m" by simp
      show ?thesis
      proof (cases "m < e - 2")
        case False
        with ss have nl: "\<not> m < size_sub (end' link) 2" by simp
        from "1.IH"(4) [OF True c np semi mw nl L solid bar] k1 el1 sk obtain l where
          l: "delim_trim data (link\<lparr>end' := end' link - 1\<rparr>) = Inr l" "start l = start link"
          "k \<le> end' l" "end' l \<le> end' link - 1"
          by auto
        from l(4) have "end' l \<le> end' link" by arith
        with l True c np semi mw nl show ?thesis by (subst delim_trim.simps) auto
      next
        case less: True
        with ss have lt: "m < size_sub (end' link) 2" by simp
        from less e1 have "m < length data" by arith
        with L have a: "rd data m = Inr (data ! m)" by (simp add: rd_in)
        show ?thesis
        proof (cases "data ! m = CHR ''&''")
          case False
          from "1.IH"(3) [OF True c np semi mw lt a False L solid bar] k1 el1 sk obtain l where
            l: "delim_trim data (link\<lparr>end' := end' link - 1\<rparr>) = Inr l" "start l = start link"
            "k \<le> end' l" "end' l \<le> end' link - 1"
            by auto
          from l(4) have "end' l \<le> end' link" by arith
          with l True c np semi mw lt a False show ?thesis by (subst delim_trim.simps) auto
        next
          case amp: True
          with bar(5) bm have km: "k \<le> m" by (meson not_le_imp_less)
          from \<open>m < length data\<close> have ml: "m \<le> length data" by simp
          from "1.IH"(2) [OF True c np semi mw lt a amp L solid bar] km ml sk obtain l where
            l: "delim_trim data (link\<lparr>end' := m\<rparr>) = Inr l" "start l = start link"
            "k \<le> end' l" "end' l \<le> m"
            by auto
          from l(4) less have "end' l \<le> end' link" by (simp add: e_def)
          with l True c np semi mw lt a amp show ?thesis by (subst delim_trim.simps) auto
        qed
      qed
    qed
  qed
qed

lemma slice_step:
  "i < e \<Longrightarrow> e \<le> length data \<Longrightarrow>
     take (e - i) (drop i data) = data ! i # take (e - (i + 1)) (drop (i + 1) data)"
proof -
  assume "i < e" "e \<le> length data"
  then have "i < length data" by simp
  then have "drop i data = data ! i # drop (i + 1) data" by (simp add: Cons_nth_drop_Suc)
  moreover from \<open>i < e\<close> have "e - i = Suc (e - (i + 1))" by simp
  ultimately show ?thesis by simp
qed

lemma count_spec:
  assumes "length data \<le> SIZE_MAX" "e \<le> length data"
  shows "delim_count data copen cclose i e n m =
     Inr (n + count_list (take (e - i) (drop i data)) copen,
          m + (if cclose = copen then 0 else count_list (take (e - i) (drop i data)) cclose))"
  using assms
proof (induction data copen cclose i e n m rule: delim_count.induct)
  case (1 data copen cclose i e n m)
  show ?case
  proof (cases "i < e")
    case False
    then show ?thesis by (subst delim_count.simps) simp
  next
    case True
    with "1.prems" have r: "rd data i = Inr (data ! i)" by (simp add: rd_in)
    note sl = slice_step [OF True "1.prems"(2)]
    show ?thesis
    proof (cases "data ! i = copen")
      case o: True
      from "1.IH"(1) [OF True r o "1.prems"] True r o sl show ?thesis
        by (subst delim_count.simps) simp
    next
      case no: False
      show ?thesis
      proof (cases "data ! i = cclose")
        case cl: True
        from "1.IH"(2) [OF True r no cl "1.prems"] True r no cl sl show ?thesis
          by (subst delim_count.simps) auto
      next
        case ncl: False
        from "1.IH"(3) [OF True r no ncl "1.prems"] True r no ncl sl show ?thesis
          by (subst delim_count.simps) auto
      qed
    qed
  qed
qed

lemma copen_of_cases:
  "copen_of c \<noteq> CHR 0x00 \<longleftrightarrow> c = CHR 0x22 \<or> c = CHR 0x27 \<or> c = CHR '')'' \<or> c = CHR '']'' \<or> c = CHR ''}''"
  by (simp add: copen_of_def)

lemma last_in_slice:
  assumes "s < e" "e \<le> length data"
  shows "data ! (e - 1) \<in> set (take (e - s) (drop s data))"
proof -
  from assms have "take (e - s) (drop s data) ! (e - 1 - s) = data ! (e - 1)" by simp
  moreover from assms have "e - 1 - s < length (take (e - s) (drop s data))" by simp
  ultimately show ?thesis by (metis nth_mem)
qed

lemma balance_spec:
  assumes "length data \<le> SIZE_MAX" "start link < end' link" "end' link \<le> length data"
  shows "delim_balance data link =
     Inr (True,
       if data ! (end' link - 1) = CHR 0x22 \<or> data ! (end' link - 1) = CHR 0x27 \<or>
          (data ! (end' link - 1) = CHR '')'' \<or> data ! (end' link - 1) = CHR '']'' \<or>
             data ! (end' link - 1) = CHR ''}'') \<and>
          count_list (span_bytes data link) (copen_of (data ! (end' link - 1)))
            \<noteq> count_list (span_bytes data link) (data ! (end' link - 1))
       then link\<lparr>end' := end' link - 1\<rparr> else link)"
proof -
  define c where "c = data ! (end' link - 1)"
  from assms have r: "rd data (size_sub (end' link) 1) = Inr c"
    by (simp add: size_sub_def rd_in c_def)
  note cnt = count_spec [OF assms(1,3), of "copen_of c" c "start link" 0 0]
  from last_in_slice [OF assms(2,3)] have "count_list (span_bytes data link) c \<noteq> 0"
    unfolding span_bytes_def c_def by (simp only: count_list_0_iff not_not)
  then have pos: "0 < count_list (take (end' link - start link) (drop (start link) data)) c"
    by (simp add: span_bytes_def)
  have eq: "delim_balance data link =
      (if copen_of c \<noteq> CHR 0x00 then
         (if (if c = copen_of c then 0 else count_list (span_bytes data link) c)
               \<noteq> count_list (span_bytes data link) (copen_of c)
          then Inr (True, link\<lparr>end' := end' link - 1\<rparr>) else Inr (True, link))
       else Inr (True, link))"
    unfolding delim_balance_def r by (simp add: cnt Let_def span_bytes_def)
  consider (quote) "c = CHR 0x22 \<or> c = CHR 0x27"
    | (bracket) "c = CHR '')'' \<or> c = CHR '']'' \<or> c = CHR ''}''"
    | (other) "copen_of c = CHR 0x00"
    using copen_of_cases [of c] by blast
  then show ?thesis
  proof cases
    case quote
    then have "copen_of c = c" by (auto simp: copen_of_def)
    with quote pos show ?thesis
      unfolding eq c_def [symmetric] by (auto simp: span_bytes_def)
  next
    case bracket
    then have "copen_of c \<noteq> c" "copen_of c \<noteq> CHR 0x00" "c \<noteq> CHR 0x22" "c \<noteq> CHR 0x27"
      by (auto simp: copen_of_def)
    with bracket show ?thesis
      unfolding eq c_def [symmetric] by (simp add: eq_commute)
  next
    case other
    then have "c \<noteq> CHR 0x22" "c \<noteq> CHR 0x27" "c \<noteq> CHR '')''" "c \<noteq> CHR '']''" "c \<noteq> CHR ''}''"
      using copen_of_cases [of c] by auto
    with other show ?thesis
      unfolding eq c_def [symmetric] by simp
  qed
qed

lemma delim_floor:
  assumes "length data \<le> SIZE_MAX"
    and "\<forall>j. start link \<le> j \<and> j < k \<longrightarrow> data ! j \<noteq> CHR ''<''"
    and "\<not> strchr ''?!.,:'' (data ! (k - 1))" "data ! (k - 1) \<noteq> CHR '';''"
    and "copen_of (data ! (k - 1)) = CHR 0x00"
    and "b \<le> k" "b < length data" "\<not> isalpha (data ! b)" "data ! b \<noteq> CHR '';''"
    and "\<forall>j. b \<le> j \<and> j < k \<longrightarrow> data ! j \<noteq> CHR ''&''"
    and "k \<le> end' link" "end' link \<le> length data" "start link < k"
  shows "\<exists>l. autolink_delim data link = Inr (True, l) \<and> start l = start link \<and>
           k \<le> end' l \<and> end' l \<le> end' link"
proof -
  from assms(13) have sk: "start link \<le> k" by simp
  from cut_floor [OF assms(1,12,2) sk assms(11)] obtain l1 where
    l1: "delim_cut data (start link) link = Inr l1" "start l1 = start link" "k \<le> end' l1"
        "end' l1 \<le> end' link"
    by blast
  from l1(4) assms(12) have e1: "end' l1 \<le> length data" by simp
  from assms(13) l1(2) have s1: "start l1 < k" by simp
  from trim_floor [OF assms(1,3,4,6-10) l1(3) e1 s1] obtain l2 where
    l2: "delim_trim data l1 = Inr l2" "start l2 = start l1" "k \<le> end' l2" "end' l2 \<le> end' l1"
    by blast
  from l2 s1 have ne: "start l2 < end' l2" by simp
  from l2(4) e1 have e2: "end' l2 \<le> length data" by simp
  note bal = balance_spec [OF assms(1) ne e2]
  have "\<exists>l. delim_balance data l2 = Inr (True, l) \<and> start l = start l2 \<and> k \<le> end' l \<and> end' l \<le> end' l2"
  proof (cases "end' l2 = k")
    case True
    with assms(5) have "copen_of (data ! (end' l2 - 1)) = CHR 0x00" by simp
    with copen_of_cases [of "data ! (end' l2 - 1)"]
    have "delim_balance data l2 = Inr (True, l2)" unfolding bal by auto
    with True show ?thesis by simp
  next
    case False
    with l2(3) have "k \<le> end' l2 - 1" by simp
    then show ?thesis unfolding bal by auto
  qed
  then obtain l where l: "delim_balance data l2 = Inr (True, l)" "start l = start l2"
    "k \<le> end' l" "end' l \<le> end' l2" by blast
  from l1(1) l2(1) ne l(1) have "autolink_delim data link = Inr (True, l)"
    by (simp add: autolink_delim_def)
  with l l1 l2 show ?thesis by auto
qed

section \<open>The domain validator and the forward extension\<close>

lemma domain_loop_spec:
  assumes "length data \<le> SIZE_MAX" "sz \<le> length data" "0 < sz" "s \<le> i"
    and "\<forall>j. s \<le> j \<and> j < i \<longrightarrow> domain_char (data ! j)"
  shows "\<exists>e. domain_loop data sz i np = Inr (e, np + count_list (take (e - i) (drop i data)) CHR ''.'') \<and>
           i \<le> e \<and> (\<forall>j. s \<le> j \<and> j < e \<longrightarrow> domain_char (data ! j)) \<and>
           (if e < sz - 1 then \<not> domain_char (data ! e) else e = max i (sz - 1))"
  using assms
proof (induction data sz i np rule: domain_loop.induct)
  case (1 data sz i np)
  from "1.prems"(3) have ss: "size_sub sz 1 = sz - 1" by (simp add: size_sub_def)
  show ?case
  proof (cases "i < sz - 1")
    case False
    with ss "1.prems"(5) show ?thesis by (subst domain_loop.simps) (auto simp: max_def)
  next
    case True
    with ss have lt: "i < size_sub sz 1" by simp
    from True "1.prems" have il: "i < length data" by simp
    with "1.prems" have r: "rd data i = Inr (data ! i)" by (simp add: rd_in)
    show ?thesis
    proof (cases "domain_char (data ! i)")
      case False
      then have "data ! i \<noteq> CHR ''.''" "\<not> isalnum (data ! i) \<and> data ! i \<noteq> CHR ''-''"
        by (auto simp: domain_char_def)
      with lt r True False "1.prems"(5) show ?thesis by (subst domain_loop.simps) auto
    next
      case dc: True
      have inv: "\<forall>j. s \<le> j \<and> j < i + 1 \<longrightarrow> domain_char (data ! j)"
      proof (intro allI impI)
        fix j assume "s \<le> j \<and> j < i + 1"
        then have "j = i \<or> (s \<le> j \<and> j < i)" by auto
        with dc "1.prems"(5) show "domain_char (data ! j)" by auto
      qed
      from "1.prems"(4) have si: "s \<le> i + 1" by simp
      have step: "\<And>e. i + 1 \<le> e \<Longrightarrow> e \<le> length data \<Longrightarrow>
          count_list (take (e - i) (drop i data)) CHR ''.'' =
          (if data ! i = CHR ''.'' then 1 else 0) + count_list (take (e - (i + 1)) (drop (i + 1) data)) CHR ''.''"
        using slice_step [of i _ data] by simp
      show ?thesis
      proof (cases "data ! i = CHR ''.''")
        case dot: True
        from "1.IH"(1) [OF lt r dot "1.prems"(1-3) si inv, of ] obtain e where
          e: "domain_loop data sz (i + 1) (np + 1) =
                Inr (e, np + 1 + count_list (take (e - (i + 1)) (drop (i + 1) data)) CHR ''.'')"
             "i + 1 \<le> e" "\<forall>j. s \<le> j \<and> j < e \<longrightarrow> domain_char (data ! j)"
             "if e < sz - 1 then \<not> domain_char (data ! e) else e = max (i + 1) (sz - 1)"
          by blast
        from e(4) True have e4: "if e < sz - 1 then \<not> domain_char (data ! e) else e = max i (sz - 1)"
          by (auto simp: max_def split: if_splits)
        from e(4) e(2) True "1.prems"(2) have "e \<le> length data" by (auto simp: max_def split: if_splits)
        from step [OF e(2) this] dot e(1)
        have "domain_loop data sz (i + 1) (np + 1) =
                Inr (e, np + count_list (take (e - i) (drop i data)) CHR ''.'')" by simp
        moreover from lt r dot have "domain_loop data sz i np = domain_loop data sz (i + 1) (np + 1)"
          by (subst domain_loop.simps) auto
        ultimately show ?thesis using e(2,3) e4 by auto
      next
        case nd: False
        with dc have n2: "\<not> (\<not> isalnum (data ! i) \<and> data ! i \<noteq> CHR ''-'')"
          by (auto simp: domain_char_def)
        from "1.IH"(2) [OF lt r nd n2 "1.prems"(1-3) si inv] obtain e where
          e: "domain_loop data sz (i + 1) np =
                Inr (e, np + count_list (take (e - (i + 1)) (drop (i + 1) data)) CHR ''.'')"
             "i + 1 \<le> e" "\<forall>j. s \<le> j \<and> j < e \<longrightarrow> domain_char (data ! j)"
             "if e < sz - 1 then \<not> domain_char (data ! e) else e = max (i + 1) (sz - 1)"
          by blast
        from e(4) True have e4: "if e < sz - 1 then \<not> domain_char (data ! e) else e = max i (sz - 1)"
          by (auto simp: max_def split: if_splits)
        from e(4) e(2) True "1.prems"(2) have "e \<le> length data" by (auto simp: max_def split: if_splits)
        from step [OF e(2) this] nd e(1)
        have "domain_loop data sz (i + 1) np =
                Inr (e, np + count_list (take (e - i) (drop i data)) CHR ''.'')" by simp
        moreover from lt r nd n2 have "domain_loop data sz i np = domain_loop data sz (i + 1) np"
          by (subst domain_loop.simps) auto
        ultimately show ?thesis using e(2,3) e4 by auto
      qed
    qed
  qed
qed

lemma extend_end_spec:
  assumes "length data \<le> SIZE_MAX" "sz \<le> length data"
  shows "\<exists>l. extend_end data sz link = Inr l \<and> start l = start link \<and> end' link \<le> end' l \<and>
           (end' link \<le> sz \<longrightarrow> end' l \<le> sz) \<and>
           (\<forall>j. end' link \<le> j \<and> j < end' l \<longrightarrow> \<not> isspace (data ! j)) \<and>
           (end' l < sz \<longrightarrow> isspace (data ! end' l))"
  using assms
proof (induction data sz link rule: extend_end.induct)
  case (1 data sz link)
  show ?case
  proof (cases "end' link < sz")
    case False
    then have "extend_end data sz link = Inr link"
      by (subst extend_end.simps) simp
    with False show ?thesis by auto
  next
    case True
    with "1.prems" have r: "rd data (end' link) = Inr (data ! end' link)" by (simp add: rd_in)
    show ?thesis
    proof (cases "isspace (data ! end' link)")
      case sp: True
      with True r have "extend_end data sz link = Inr link"
        by (subst extend_end.simps) simp
      with True sp show ?thesis by auto
    next
      case False
      from "1.IH" [OF True r False "1.prems"] obtain l where
        l: "extend_end data sz (link\<lparr>end' := end' link + 1\<rparr>) = Inr l"
           "start l = start link"
           "end' link + 1 \<le> end' l" "end' link + 1 \<le> sz \<longrightarrow> end' l \<le> sz"
           "\<forall>j. end' link + 1 \<le> j \<and> j < end' l \<longrightarrow> \<not> isspace (data ! j)"
           "end' l < sz \<longrightarrow> isspace (data ! end' l)"
        by auto
      have "\<forall>j. end' link \<le> j \<and> j < end' l \<longrightarrow> \<not> isspace (data ! j)"
      proof (intro allI impI)
        fix j assume "end' link \<le> j \<and> j < end' l"
        then have "j = end' link \<or> (end' link + 1 \<le> j \<and> j < end' l)" by auto
        with False l(5) show "\<not> isspace (data ! j)" by auto
      qed
      moreover from True r False l(1) have "extend_end data sz link = Inr l"
        by (subst extend_end.simps) simp
      ultimately show ?thesis using l(2,3,4,6) True by auto
    qed
  qed
qed

lemma check_domain_spec:
  assumes "sz = length data" "length data \<le> SIZE_MAX" "start link < sz"
  shows "(\<not> isalnum (data ! start link) \<longrightarrow>
            check_domain data sz link allow_short = Inr (False, link)) \<and>
         (isalnum (data ! start link) \<longrightarrow>
            (\<exists>e. check_domain data sz link allow_short =
                   Inr (allow_short \<or>
                        CHR ''.'' \<in> set (take (e - (start link + 1)) (drop (start link + 1) data)),
                        link\<lparr>end' := e\<rparr>) \<and>
                 start link + 1 \<le> e \<and>
                 (\<forall>j. start link + 1 \<le> j \<and> j < e \<longrightarrow> domain_char (data ! j)) \<and>
                 (if e < sz - 1 then \<not> domain_char (data ! e)
                  else e = max (start link + 1) (sz - 1))))"
proof -
  from assms have r: "rd data (start link) = Inr (data ! start link)" by (simp add: rd_in)
  from assms have sz: "sz \<le> length data" "0 < sz" by auto
  have inv: "\<forall>j. start link + 1 \<le> j \<and> j < start link + 1 \<longrightarrow> domain_char (data ! j)" by auto
  from domain_loop_spec [OF assms(2) sz order_refl inv, of 0] obtain e where
    e: "domain_loop data sz (start link + 1) 0 =
          Inr (e, count_list (take (e - (start link + 1)) (drop (start link + 1) data)) CHR ''.'')"
       "start link + 1 \<le> e"
       "\<forall>j. start link + 1 \<le> j \<and> j < e \<longrightarrow> domain_char (data ! j)"
       "if e < sz - 1 then \<not> domain_char (data ! e) else e = max (start link + 1) (sz - 1)"
    by auto
  have cnt: "\<And>xs. (0 < count_list xs CHR ''.'') = (CHR ''.'' \<in> set xs)"
    using count_list_0_iff [of _ "CHR ''.''"] by (metis neq0_conv)
  have "isalnum (data ! start link) \<Longrightarrow> check_domain data sz link allow_short =
      Inr (allow_short \<or> CHR ''.'' \<in> set (take (e - (start link + 1)) (drop (start link + 1) data)),
           link\<lparr>end' := e\<rparr>)"
    unfolding check_domain_def r using e(1) by (simp add: cnt)
  moreover have "\<not> isalnum (data ! start link) \<Longrightarrow> check_domain data sz link allow_short = Inr (False, link)"
    unfolding check_domain_def r by simp
  ultimately show ?thesis using e(2,3,4) by blast
qed

section \<open>Evaluation on concrete buffers\<close>

lemma char_eq_char_of: "(c = char_of (n::nat)) = (take_bit 8 n = of_char c)"
  using char_of_eq_iff [of n c] by auto

text \<open>The rules that evaluate the model on a concrete buffer.\<close>

lemmas ctype_eval =
  isalpha_def isdigit_def isalnum_def ispunct_def isspace_def tolower_def strchr_def
  domain_char_def copen_of_def char_of_eq_iff char_eq_char_of

lemmas run_eval =
  rd_def SIZE_MAX_def INT_MAX_def size_sub_def span_bytes_def
  autolink_issafe_def valid_uris_def
  delim_cut.simps entity_walk.simps delim_trim.simps delim_count.simps delim_balance_def
  autolink_delim_def domain_loop.simps check_domain_def extend_end.simps
  autolink__www_def email_rewind.simps email_scan.simps autolink__email_def
  AUTOLINK_SHORT_DOMAINS_def url_rewind.simps no_slashes_def autolink__url_def

section \<open>The safety check\<close>

lemma tolower_NUL: "tolower c = tolower u \<Longrightarrow> c = CHR 0x00 \<Longrightarrow> u = CHR 0x00"
  using tolower_nonalpha [of c u] by (simp add: isalpha_def)

lemma strncasecmp_spec:
  assumes "length link \<le> SIZE_MAX" "CHR 0x00 \<notin> set us"
  shows "i + length us \<le> length link \<Longrightarrow>
     strncasecmp link i us = Inr (map tolower (take (length us) (drop i link)) = map tolower us)"
  using assms(2)
proof (induction us arbitrary: i)
  case Nil
  then show ?case by simp
next
  case (Cons u us)
  from Cons.prems have il: "i < length link" by simp
  with assms(1) have r: "rd link i = Inr (link ! i)" by (simp add: rd_in)
  from il have d: "drop i link = link ! i # drop (i + 1) link" by (simp add: Cons_nth_drop_Suc)
  from Cons.prems have "u \<noteq> CHR 0x00" by auto
  then have nn: "tolower (link ! i) = tolower u \<Longrightarrow> link ! i \<noteq> CHR 0x00"
    using tolower_NUL [of "link ! i" u] by auto
  from Cons.prems have "strncasecmp link (i + 1) us =
      Inr (map tolower (take (length us) (drop (i + 1) link)) = map tolower us)"
    by (intro Cons.IH) auto
  with r d nn show ?case by auto
qed

lemma issafe_loop_spec:
  assumes "length link \<le> SIZE_MAX"
  shows "\<forall>uri \<in> set uris. CHR 0x00 \<notin> set uri \<Longrightarrow>
     issafe_loop link (length link) uris =
       Inr (\<exists>uri \<in> set uris. begins_nocase link uri \<and> length uri < length link \<and>
              isalnum (link ! length uri))"
proof (induction uris)
  case Nil
  then show ?case by simp
next
  case (Cons uri uris)
  from Cons.prems have IH: "issafe_loop link (length link) uris =
       Inr (\<exists>uri \<in> set uris. begins_nocase link uri \<and> length uri < length link \<and>
              isalnum (link ! length uri))"
    by (intro Cons.IH) auto
  show ?case
  proof (cases "length uri < length link")
    case False
    with IH show ?thesis by auto
  next
    case True
    from Cons.prems have "CHR 0x00 \<notin> set uri" by simp
    from strncasecmp_spec [OF assms this, of 0] True
    have s: "strncasecmp link 0 uri = Inr (begins_nocase link uri)"
      by (simp add: begins_nocase_def map_tolower_eq)
    from True assms have r: "rd link (length uri) = Inr (link ! length uri)" by (simp add: rd_in)
    from True s r IH show ?thesis by auto
  qed
qed

lemma issafe_spec:
  assumes "length link \<le> SIZE_MAX"
  shows "autolink_issafe link (length link) =
       Inr (\<exists>uri \<in> set valid_uris. begins_nocase link uri \<and> length uri < length link \<and>
              isalnum (link ! length uri))"
  unfolding autolink_issafe_def
  by (rule issafe_loop_spec [OF assms]) (simp add: valid_uris_def)

section \<open>The \<open>www\<close> matcher\<close>

lemma memcmp_spec:
  assumes "length data \<le> SIZE_MAX"
  shows "i + length us \<le> length data \<Longrightarrow>
     memcmp data i us = Inr (take (length us) (drop i data) = us)"
proof (induction us arbitrary: i)
  case Nil
  then show ?case by simp
next
  case (Cons u us)
  from Cons.prems have il: "i < length data" by simp
  with assms have r: "rd data i = Inr (data ! i)" by (simp add: rd_in)
  from il have d: "drop i data = data ! i # drop (i + 1) data" by (simp add: Cons_nth_drop_Suc)
  from Cons.prems have "memcmp data (i + 1) us = Inr (take (length us) (drop (i + 1) data) = us)"
    by (intro Cons.IH) auto
  with r d show ?case by auto
qed

lemma memcmp_www:
  assumes "length data \<le> SIZE_MAX" "pos + 4 \<le> length data"
  shows "memcmp data pos ''www.'' = Inr (take 4 (drop pos data) = ''www.'')"
proof -
  have len: "length ''www.'' = 4" by simp
  from assms(2) have "pos + length ''www.'' \<le> length data" by simp
  from memcmp_spec [OF assms(1) this] show ?thesis by (simp only: len)
qed

lemma slice_nth:
  "take n (drop i data) = us \<Longrightarrow> j < length us \<Longrightarrow> data ! (i + j) = us ! j"
proof -
  assume eq: "take n (drop i data) = us" and j: "j < length us"
  from eq j have "j < n" "j < length (drop i data)" by auto
  then have "take n (drop i data) ! j = data ! (i + j)" by simp
  with eq show ?thesis by simp
qed

lemma www_bytes:
  assumes "take 4 (drop pos data) = ''www.''"
  shows "data ! pos = CHR ''w''" "data ! (pos + 1) = CHR ''w''" "data ! (pos + 2) = CHR ''w''"
    "data ! (pos + 3) = CHR ''.''"
  using slice_nth [OF assms, of 0] slice_nth [OF assms, of 1] slice_nth [OF assms, of 2]
    slice_nth [OF assms, of 3]
  by simp_all

lemma www_fail:
  assumes "sz = length data" "length data \<le> SIZE_MAX" "pos \<le> sz"
    and "(0 < pos \<and> \<not> ispunct (data ! (pos - 1)) \<and> \<not> isspace (data ! (pos - 1))) \<or>
         sz - pos < 4 \<or> take 4 (drop pos data) \<noteq> ''www.''"
  shows "autolink__www link data pos sz flags = Inr (False, link)"
proof -
  from assms(1-3) have r: "0 < pos \<Longrightarrow> rd data (pos - 1) = Inr (data ! (pos - 1))"
    by (simp add: rd_in)
  from assms(3) have ss: "size_sub sz pos = sz - pos" by (simp add: size_sub_def)
  have m: "\<not> sz - pos < 4 \<Longrightarrow> memcmp data pos ''www.'' = Inr (take 4 (drop pos data) = ''www.'')"
    using memcmp_www [OF assms(2), of pos] assms(1,3) by (simp del: memcmp.simps)
  show ?thesis
  proof (cases "0 < pos")
    case True
    with r assms(4) m show ?thesis
      unfolding autolink__www_def ss by (auto simp del: memcmp.simps)
  next
    case False
    with assms(4) m show ?thesis
      unfolding autolink__www_def ss by (auto simp del: memcmp.simps)
  qed
qed

lemma www_run:
  assumes "sz = length data" "length data \<le> SIZE_MAX" "pos \<le> sz"
    and "\<not> (0 < pos \<and> \<not> ispunct (data ! (pos - 1)) \<and> \<not> isspace (data ! (pos - 1)))"
    and "\<not> sz - pos < 4" "take 4 (drop pos data) = ''www.''"
  shows "\<exists>b l. autolink__www link data pos sz flags = Inr (b, l) \<and>
           (b \<longrightarrow> start l = pos \<and> pos + 3 \<le> end' l \<and> end' l \<le> sz)"
proof -
  note w = www_bytes [OF assms(6)]
  from assms(1-3) have r: "0 < pos \<Longrightarrow> rd data (pos - 1) = Inr (data ! (pos - 1))"
    by (simp add: rd_in)
  from assms(3) have ss: "size_sub sz pos = sz - pos" by (simp add: size_sub_def)
  from assms(5) have p4: "pos + 4 \<le> sz" by simp
  have m: "memcmp data pos ''www.'' = Inr True"
    using memcmp_www [OF assms(2), of pos] assms(1,6) p4 by (simp del: memcmp.simps)
  define link0 where "link0 = link\<lparr>start := pos, end' := 0\<rparr>"
  have s0: "start link0 = pos" by (simp add: link0_def)
  from p4 s0 have sl: "start link0 < sz" by simp
  have an: "isalnum (data ! pos)" by (simp add: w isalnum_def isalpha_def)
  from check_domain_spec [OF assms(1,2) sl, of False, unfolded s0] an obtain e where
    e: "check_domain data sz link0 False =
          Inr (CHR ''.'' \<in> set (take (e - (pos + 1)) (drop (pos + 1) data)), link0\<lparr>end' := e\<rparr>)"
       "pos + 1 \<le> e"
       "if e < sz - 1 then \<not> domain_char (data ! e) else e = max (pos + 1) (sz - 1)"
    by auto
  have front: "autolink__www link data pos sz flags =
      (case check_domain data sz link0 False of
         Inl f \<Rightarrow> Inl f
       | Inr (ok, link1) \<Rightarrow>
           if \<not> ok then Inr (False, link1)
           else (case extend_end data sz link1 of
                   Inl f \<Rightarrow> Inl f
                 | Inr link2 \<Rightarrow> autolink_delim data link2))"
  proof (cases "0 < pos")
    case True
    with r assms(4,5) m show ?thesis
      unfolding autolink__www_def ss link0_def by (auto simp del: memcmp.simps)
  next
    case False
    with assms(5) m show ?thesis
      unfolding autolink__www_def ss link0_def by (auto simp del: memcmp.simps)
  qed
  show ?thesis
  proof (cases "CHR ''.'' \<in> set (take (e - (pos + 1)) (drop (pos + 1) data))")
    case False
    with e(1) front have "autolink__www link data pos sz flags = Inr (False, link0\<lparr>end' := e\<rparr>)"
      by simp
    then show ?thesis by blast
  next
    case True
    define link1 where "link1 = link0\<lparr>end' := e\<rparr>"
    have l1: "start link1 = pos" "end' link1 = e" by (simp_all add: link1_def s0)
    have e3: "pos + 3 \<le> e"
    proof (rule ccontr)
      assume "\<not> pos + 3 \<le> e"
      with e(2) have c: "e = pos + 1 \<or> e = pos + 2" by auto
      with p4 have "e < sz - 1" by auto
      with e(3) have "\<not> domain_char (data ! e)" by simp
      with c w show False by (auto simp: domain_char_def isalnum_def isalpha_def)
    qed
    from e(3) p4 have esz: "e \<le> sz" by (auto simp: max_def split: if_splits)
    from assms(1) have szl: "sz \<le> length data" by simp
    from extend_end_spec [OF assms(2) szl, of link1] l1 esz obtain link2 where
      l2: "extend_end data sz link1 = Inr link2" "start link2 = pos" "e \<le> end' link2"
          "end' link2 \<le> sz"
      by auto
    from True e(1) l2(1) front have eq: "autolink__www link data pos sz flags = autolink_delim data link2"
      by (simp add: link1_def)
    have k1: "\<forall>j. start link2 \<le> j \<and> j < pos + 3 \<longrightarrow> data ! j \<noteq> CHR ''<''"
    proof (intro allI impI)
      fix j assume "start link2 \<le> j \<and> j < pos + 3"
      with l2(2) have "j = pos \<or> j = pos + 1 \<or> j = pos + 2" by auto
      with w show "data ! j \<noteq> CHR ''<''" by auto
    qed
    have k2: "\<not> strchr ''?!.,:'' (data ! (pos + 3 - 1))" "data ! (pos + 3 - 1) \<noteq> CHR '';''"
      "copen_of (data ! (pos + 3 - 1)) = CHR 0x00"
      using w(3) by (simp_all add: strchr_def copen_of_def)
    have k3: "pos + 3 \<le> pos + 3" "pos + 3 < length data" "\<not> isalpha (data ! (pos + 3))"
      "data ! (pos + 3) \<noteq> CHR '';''"
      "\<forall>j. pos + 3 \<le> j \<and> j < pos + 3 \<longrightarrow> data ! j \<noteq> CHR ''&''"
      using w(4) p4 assms(1) by (auto simp: isalpha_def)
    from e3 l2(3) have k4: "pos + 3 \<le> end' link2" by simp
    from l2(4) assms(1) have k5: "end' link2 \<le> length data" by simp
    from l2(2) have k6: "start link2 < pos + 3" by simp
    from delim_floor [OF assms(2) k1 k2 k3 k4 k5 k6] l2 eq show ?thesis by auto
  qed
qed

lemma www_success_bounds:
  assumes "sz = length data" "length data \<le> SIZE_MAX" "pos \<le> sz"
    and "autolink__www link data pos sz flags = Inr (True, l)"
  shows "start l = pos \<and> pos + 3 \<le> end' l \<and> end' l \<le> sz"
proof (cases "(0 < pos \<and> \<not> ispunct (data ! (pos - 1)) \<and> \<not> isspace (data ! (pos - 1))) \<or>
         sz - pos < 4 \<or> take 4 (drop pos data) \<noteq> ''www.''")
  case True
  from www_fail [OF assms(1-3) True, of link flags] assms(4) show ?thesis by simp
next
  case False
  then have c: "\<not> (0 < pos \<and> \<not> ispunct (data ! (pos - 1)) \<and> \<not> isspace (data ! (pos - 1)))"
    "\<not> sz - pos < 4" "take 4 (drop pos data) = ''www.''"
    by blast+
  from www_run [OF assms(1-3) c, of link flags] assms(4) show ?thesis by auto
qed

section \<open>The email matcher\<close>

lemma email_rewind_props:
  "email_rewind data link = Inr l \<Longrightarrow>
     end' l = end' link \<and> start l \<le> start link \<and>
     (\<forall>j. start l \<le> j \<and> j < start link \<longrightarrow> j < length data \<and> local_char (data ! j)) \<and>
     (start l = 0 \<or> \<not> local_char (data ! (start l - 1)))"
proof (induction data link arbitrary: l rule: email_rewind.induct)
  case (1 data link)
  note step = "1.prems" [unfolded email_rewind.simps [of data link]]
  show ?case
  proof (cases "start link > 0")
    case False
    with step show ?thesis by auto
  next
    case True
    with step obtain c where c: "rd data (start link - 1) = Inr c"
      by (cases "rd data (start link - 1)") auto
    from rd_InrD [OF c] have cd: "start link - 1 < length data" "c = data ! (start link - 1)"
      by simp_all
    show ?thesis
    proof (cases "local_char c")
      case False
      with step True c cd show ?thesis by (auto simp: local_char_def)
    next
      case lc: True
      with step True c have rec: "email_rewind data (link\<lparr>start := start link - 1\<rparr>) = Inr l"
        by (auto simp: local_char_def split: if_splits)
      have ih: "end' l = end' link \<and> start l \<le> start link - 1 \<and>
          (\<forall>j. start l \<le> j \<and> j < start link - 1 \<longrightarrow> j < length data \<and> local_char (data ! j)) \<and>
          (start l = 0 \<or> \<not> local_char (data ! (start l - 1)))"
      proof (cases "isalnum c")
        case True
        from "1.IH"(1) [OF \<open>start link > 0\<close> c True rec] show ?thesis by simp
      next
        case False
        with lc have "strchr ''.+-_'' c" by (simp add: local_char_def)
        from "1.IH"(2) [OF \<open>start link > 0\<close> c False this rec] show ?thesis by simp
      qed
      have "\<forall>j. start l \<le> j \<and> j < start link \<longrightarrow> j < length data \<and> local_char (data ! j)"
      proof (intro allI impI)
        fix j assume "start l \<le> j \<and> j < start link"
        then have "j = start link - 1 \<or> (start l \<le> j \<and> j < start link - 1)" by auto
        with ih lc cd show "j < length data \<and> local_char (data ! j)" by auto
      qed
      with ih show ?thesis by auto
    qed
  qed
qed

lemma email_scan_props:
  "email_scan data sz link nb np = Inr (l, nb', np') \<Longrightarrow>
     start l = start link \<and> end' link \<le> end' l \<and> (end' link \<le> sz \<longrightarrow> end' l \<le> sz) \<and>
     (\<forall>j. end' link \<le> j \<and> j < end' l \<longrightarrow> j < length data \<and> scan_char (data ! j)) \<and>
     (nb < nb' \<longrightarrow> (\<exists>j. end' link \<le> j \<and> j < end' l \<and> data ! j = CHR ''@''))"
proof (induction data sz link nb np arbitrary: l nb' np' rule: email_scan.induct)
  case (1 data sz link nb np)
  note step = "1.prems" [unfolded email_scan.simps [of data sz link nb np]]
  let ?P = "\<lambda>nb0. start l = start link \<and> end' link + 1 \<le> end' l \<and> (end' link + 1 \<le> sz \<longrightarrow> end' l \<le> sz) \<and>
     (\<forall>j. end' link + 1 \<le> j \<and> j < end' l \<longrightarrow> j < length data \<and> scan_char (data ! j)) \<and>
     (nb0 < nb' \<longrightarrow> (\<exists>j. end' link + 1 \<le> j \<and> j < end' l \<and> data ! j = CHR ''@''))"
  show ?case
  proof (cases "end' link < sz")
    case False
    with step show ?thesis by auto
  next
    case True
    with step obtain c where c: "rd data (end' link) = Inr c"
      by (cases "rd data (end' link)") auto
    from rd_InrD [OF c] have cd: "end' link < length data" "c = data ! end' link"
      by simp_all
    have fin: "scan_char c \<Longrightarrow> ?P nb0 \<Longrightarrow> nb0 = nb \<or> (nb0 = nb + 1 \<and> c = CHR ''@'') \<Longrightarrow> ?thesis" for nb0
    proof -
      assume sc: "scan_char c" and P: "?P nb0" and n: "nb0 = nb \<or> (nb0 = nb + 1 \<and> c = CHR ''@'')"
      have "\<forall>j. end' link \<le> j \<and> j < end' l \<longrightarrow> j < length data \<and> scan_char (data ! j)"
      proof (intro allI impI)
        fix j assume "end' link \<le> j \<and> j < end' l"
        then have "j = end' link \<or> (end' link + 1 \<le> j \<and> j < end' l)" by auto
        with P sc cd show "j < length data \<and> scan_char (data ! j)" by auto
      qed
      moreover have "nb < nb' \<longrightarrow> (\<exists>j. end' link \<le> j \<and> j < end' l \<and> data ! j = CHR ''@'')"
      proof
        assume lt: "nb < nb'"
        show "\<exists>j. end' link \<le> j \<and> j < end' l \<and> data ! j = CHR ''@''"
        proof (cases "nb0 < nb'")
          case True
          with P obtain j where "end' link + 1 \<le> j \<and> j < end' l \<and> data ! j = CHR ''@''" by blast
          then have "end' link \<le> j \<and> j < end' l \<and> data ! j = CHR ''@''" by simp
          then show ?thesis by blast
        next
          case False
          with lt n have "c = CHR ''@''" by auto
          with cd P have "end' link \<le> end' link \<and> end' link < end' l \<and> data ! end' link = CHR ''@''"
            by auto
          then show ?thesis by blast
        qed
      qed
      ultimately show ?thesis using P True by auto
    qed
    show ?thesis
    proof (cases "isalnum c")
      case an: True
      with step True c have rec: "email_scan data sz (link\<lparr>end' := end' link + 1\<rparr>) nb np = Inr (l, nb', np')"
        by simp
      from "1.IH"(1) [OF True c an rec] have "?P nb" by simp
      with an show ?thesis by (intro fin [of nb]) (auto simp: scan_char_def)
    next
      case nan: False
      show ?thesis
      proof (cases "c = CHR ''@''")
        case at: True
        with step True c nan have no: "nb \<noteq> INT_MAX"
          and rec: "email_scan data sz (link\<lparr>end' := end' link + 1\<rparr>) (nb + 1) np = Inr (l, nb', np')"
          by (auto split: if_splits)
        from "1.IH"(2) [OF True c nan at no rec] have "?P (nb + 1)" by simp
        with at show ?thesis by (intro fin [of "nb + 1"]) (auto simp: scan_char_def)
      next
        case nat: False
        show ?thesis
        proof (cases "c = CHR ''.'' \<and> end' link < sz - 1")
          case dot: True
          with step True c nan nat have no: "np \<noteq> INT_MAX"
            and rec: "email_scan data sz (link\<lparr>end' := end' link + 1\<rparr>) nb (np + 1) = Inr (l, nb', np')"
            by (auto split: if_splits)
          from "1.IH"(3) [OF True c nan nat dot no rec] have "?P nb" by simp
          with dot show ?thesis by (intro fin [of nb]) (auto simp: scan_char_def)
        next
          case ndot: False
          show ?thesis
          proof (cases "c \<noteq> CHR ''-'' \<and> c \<noteq> CHR ''_''")
            case True
            with step \<open>end' link < sz\<close> c nan nat ndot show ?thesis by auto
          next
            case us: False
            with step True c nan nat ndot
            have rec: "email_scan data sz (link\<lparr>end' := end' link + 1\<rparr>) nb np = Inr (l, nb', np')"
              by auto
            from "1.IH"(4) [OF True c nan nat ndot us rec] have "?P nb" by simp
            with us show ?thesis by (intro fin [of nb]) (auto simp: scan_char_def)
          qed
        qed
      qed
    qed
  qed
qed

lemma local_char_plain:
  "local_char c \<Longrightarrow> c \<noteq> CHR ''<''"
  by (auto simp: local_char_def strchr_def isalnum_def isalpha_def isdigit_def)

lemma scan_char_plain:
  "scan_char c \<Longrightarrow> c \<noteq> CHR ''<''"
  by (auto simp: scan_char_def isalnum_def isalpha_def isdigit_def)

lemma email_success_bounds:
  assumes "sz = length data" "length data \<le> SIZE_MAX" "pos \<le> sz"
    and "autolink__email link data pos sz flags = Inr (True, l)"
  shows "start l < pos \<and> pos < end' l \<and> end' l \<le> sz"
proof -
  note run = assms(4) [unfolded autolink__email_def]
  from run obtain link1 where l1: "email_rewind data (link\<lparr>start := pos, end' := pos\<rparr>) = Inr link1"
    by (cases "email_rewind data (link\<lparr>start := pos, end' := pos\<rparr>)") auto
  from email_rewind_props [OF l1] have p1: "end' link1 = pos" "start link1 \<le> pos"
    "\<forall>j. start link1 \<le> j \<and> j < pos \<longrightarrow> local_char (data ! j)"
    by auto
  from run l1 have ne: "start link1 \<noteq> pos" by (auto split: if_splits)
  with run l1 obtain link2 nb np where l2: "email_scan data sz link1 0 0 = Inr (link2, nb, np)"
    by (cases "email_scan data sz link1 0 0") auto
  from run l1 ne l2 have nb: "nb = 1" and del: "autolink_delim data link2 = Inr (True, l)"
    by (auto split: if_splits)
  from email_scan_props [OF l2] p1(1) assms(3) nb have p2: "start link2 = start link1"
    "pos \<le> end' link2" "end' link2 \<le> sz"
    "\<forall>j. pos \<le> j \<and> j < end' link2 \<longrightarrow> scan_char (data ! j)"
    "\<exists>j. pos \<le> j \<and> j < end' link2 \<and> data ! j = CHR ''@''"
    by auto
  from p2(5) obtain a where a: "pos \<le> a" "a < end' link2" "data ! a = CHR ''@''" by blast
  have k1: "\<forall>j. start link2 \<le> j \<and> j < a + 1 \<longrightarrow> data ! j \<noteq> CHR ''<''"
  proof (intro allI impI)
    fix j assume j: "start link2 \<le> j \<and> j < a + 1"
    show "data ! j \<noteq> CHR ''<''"
    proof (cases "j < pos")
      case True
      with j p1(3) p2(1) show ?thesis by (intro local_char_plain) simp
    next
      case False
      with j a(2) p2(4) show ?thesis by (intro scan_char_plain) simp
    qed
  qed
  have k2: "\<not> strchr ''?!.,:'' (data ! (a + 1 - 1))" "data ! (a + 1 - 1) \<noteq> CHR '';''"
    "copen_of (data ! (a + 1 - 1)) = CHR 0x00"
    using a(3) by (simp_all add: strchr_def copen_of_def)
  have amp: "\<forall>j. a \<le> j \<and> j < a + 1 \<longrightarrow> data ! j \<noteq> CHR ''&''"
  proof (intro allI impI)
    fix j assume "a \<le> j \<and> j < a + 1"
    then have "j = a" by simp
    with a(3) show "data ! j \<noteq> CHR ''&''" by simp
  qed
  have k3: "a \<le> a + 1" "a < length data" "\<not> isalpha (data ! a)" "data ! a \<noteq> CHR '';''"
    using a p2(3) assms(1) by (auto simp: isalpha_def)
  note k3 = k3 amp
  from a(2) have k4: "a + 1 \<le> end' link2" by simp
  from p2(3) assms(1) have k5: "end' link2 \<le> length data" by simp
  from p1(2) ne a(1) p2(1) have k6: "start link2 < a + 1" by simp
  from delim_floor [OF assms(2) k1 k2 k3 k4 k5 k6] del
  have "start l = start link2" "a + 1 \<le> end' l" "end' l \<le> end' link2" by auto
  with p1(2) ne p2(1,3) a(1) show ?thesis by simp
qed

section \<open>The URL matcher\<close>

lemma url_rewind_spec:
  assumes "length data \<le> SIZE_MAX" "start link \<le> length data"
  shows "\<exists>l. url_rewind data link = Inr l \<and> end' l = end' link \<and> start l \<le> start link \<and>
           (\<forall>j. start l \<le> j \<and> j < start link \<longrightarrow> isalpha (data ! j)) \<and>
           (start l = 0 \<or> \<not> isalpha (data ! (start l - 1)))"
  using assms
proof (induction data link rule: url_rewind.induct)
  case (1 data link)
  show ?case
  proof (cases "start link \<noteq> 0")
    case False
    then have "url_rewind data link = Inr link" by (subst url_rewind.simps) simp
    with False show ?thesis by auto
  next
    case True
    with "1.prems" have r: "rd data (start link - 1) = Inr (data ! (start link - 1))"
      by (simp add: rd_in)
    show ?thesis
    proof (cases "isalpha (data ! (start link - 1))")
      case False
      with True r have "url_rewind data link = Inr link" by (subst url_rewind.simps) simp
      with False show ?thesis by auto
    next
      case al: True
      from "1.prems" have "start (link\<lparr>start := start link - 1\<rparr>) \<le> length data" by simp
      from "1.IH" [OF True r al "1.prems"(1) this] obtain l where
        l: "url_rewind data (link\<lparr>start := start link - 1\<rparr>) = Inr l" "end' l = end' link"
           "start l \<le> start link - 1"
           "\<forall>j. start l \<le> j \<and> j < start link - 1 \<longrightarrow> isalpha (data ! j)"
           "start l = 0 \<or> \<not> isalpha (data ! (start l - 1))"
        by auto
      have "\<forall>j. start l \<le> j \<and> j < start link \<longrightarrow> isalpha (data ! j)"
      proof (intro allI impI)
        fix j assume "start l \<le> j \<and> j < start link"
        then have "j = start link - 1 \<or> (start l \<le> j \<and> j < start link - 1)" by auto
        with al l(4) show "isalpha (data ! j)" by auto
      qed
      moreover from True r al l(1) have "url_rewind data link = Inr l"
        by (subst url_rewind.simps) simp
      moreover from l(3) have "start l \<le> start link" by arith
      ultimately show ?thesis using l(2,5) by auto
    qed
  qed
qed

lemma no_slashes_spec:
  assumes "length data \<le> SIZE_MAX" "pos + 2 < length data"
  shows "no_slashes data pos = Inr (data ! (pos + 1) \<noteq> CHR ''/'' \<or> data ! (pos + 2) \<noteq> CHR ''/'')"
proof -
  from assms have "rd data (pos + 1) = Inr (data ! (pos + 1))" "rd data (pos + 2) = Inr (data ! (pos + 2))"
    by (simp_all add: rd_in)
  then show ?thesis by (simp add: no_slashes_def)
qed

lemma not_alnum:
  "strchr ''?!.,:'' c \<or> c = CHR '';'' \<or> copen_of c \<noteq> CHR 0x00 \<or> c = CHR ''<'' \<or> c = CHR ''&''
     \<Longrightarrow> \<not> isalnum c"
  unfolding copen_of_cases strchr_def
  by (auto simp: isalnum_def isalpha_def isdigit_def)

lemma alnum_solid:
  assumes "isalnum c"
  shows "\<not> strchr ''?!.,:'' c" "c \<noteq> CHR '';''" "copen_of c = CHR 0x00" "c \<noteq> CHR ''<''" "c \<noteq> CHR ''&''"
  using assms not_alnum [of c] by blast+

lemma alpha_plain: "isalpha c \<Longrightarrow> c \<noteq> CHR ''<''"
  by (auto simp: isalpha_def)

lemma url_front:
  assumes "sz = length data" "length data \<le> SIZE_MAX" "pos < sz" "data ! pos = CHR '':''"
  shows "autolink__url link data pos sz flags =
     (if sz - pos < 4 \<or> data ! (pos + 1) \<noteq> CHR ''/'' \<or> data ! (pos + 2) \<noteq> CHR ''/''
      then Inr (False, link)
      else
        (case check_domain data sz (link\<lparr>start := pos + 3, end' := 0\<rparr>)
                (flags AND AUTOLINK_SHORT_DOMAINS \<noteq> 0) of
           Inl f \<Rightarrow> Inl f
         | Inr (ok, link1) \<Rightarrow>
             if \<not> ok then Inr (False, link1)
             else
               (case extend_end data sz link1 of
                  Inl f \<Rightarrow> Inl f
                | Inr link2 \<Rightarrow>
                    (case url_rewind data (link2\<lparr>start := pos\<rparr>) of
                       Inl f \<Rightarrow> Inl f
                     | Inr link3 \<Rightarrow>
                         (case autolink_issafe (drop (start link3) data)
                                 (size_sub sz (start link3)) of
                            Inl f \<Rightarrow> Inl f
                          | Inr safe \<Rightarrow>
                              if \<not> safe then Inr (False, link3)
                              else autolink_delim data link3)))))"
proof -
  from assms have r: "rd data pos = Inr CHR '':''" by (simp add: rd_in)
  from assms(3) have ss: "size_sub sz pos = sz - pos" by (simp add: size_sub_def)
  show ?thesis
  proof (cases "sz - pos < 4")
    case True
    then show ?thesis unfolding autolink__url_def r ss by simp
  next
    case False
    with assms(1) have "pos + 2 < length data" by simp
    from no_slashes_spec [OF assms(2) this] False show ?thesis
      unfolding autolink__url_def r ss by simp
  qed
qed

lemma url_chain:
  assumes "sz = length data" "length data \<le> SIZE_MAX" "pos < sz" "data ! pos = CHR '':''"
    and "\<not> sz - pos < 4" "data ! (pos + 1) = CHR ''/''" "data ! (pos + 2) = CHR ''/''"
    and "check_domain data sz (link\<lparr>start := pos + 3, end' := 0\<rparr>)
           (flags AND AUTOLINK_SHORT_DOMAINS \<noteq> 0) = Inr (True, link1)"
  shows "\<exists>link3 safe.
           end' link1 \<le> end' link3 \<and> end' link3 \<le> sz \<and>
           (\<forall>j. end' link1 \<le> j \<and> j < end' link3 \<longrightarrow> \<not> isspace (data ! j)) \<and>
           (end' link3 < sz \<longrightarrow> isspace (data ! end' link3)) \<and>
           start link3 \<le> pos \<and>
           (\<forall>j. start link3 \<le> j \<and> j < pos \<longrightarrow> isalpha (data ! j)) \<and>
           (start link3 = 0 \<or> \<not> isalpha (data ! (start link3 - 1))) \<and>
           autolink_issafe (drop (start link3) data) (sz - start link3) = Inr safe \<and>
           (if safe
            then \<exists>l. autolink__url link data pos sz flags = Inr (True, l) \<and>
                   autolink_delim data link3 = Inr (True, l) \<and>
                   start l = start link3 \<and> pos + 4 \<le> end' l \<and> end' l \<le> end' link3
            else autolink__url link data pos sz flags = Inr (False, link3))"
proof -
  define link0 where "link0 = link\<lparr>start := pos + 3, end' := 0\<rparr>"
  have s0: "start link0 = pos + 3" by (simp add: link0_def)
  from assms(5) have p4: "pos + 4 \<le> sz" by simp
  then have sl: "start link0 < sz" by (simp add: s0)
  note cd = check_domain_spec [OF assms(1,2) sl, of "flags AND AUTOLINK_SHORT_DOMAINS \<noteq> 0", unfolded s0]
  from assms(8) have cdr: "check_domain data sz link0 (flags AND AUTOLINK_SHORT_DOMAINS \<noteq> 0) = Inr (True, link1)"
    by (simp add: link0_def)
  have an: "isalnum (data ! (pos + 3))"
  proof (rule ccontr)
    assume "\<not> isalnum (data ! (pos + 3))"
    with cd cdr show False by simp
  qed
  with cd cdr obtain e where
    e: "link1 = link0\<lparr>end' := e\<rparr>" "pos + 3 + 1 \<le> e"
       "if e < sz - 1 then \<not> domain_char (data ! e) else e = max (pos + 3 + 1) (sz - 1)"
    by auto
  have l1: "start link1 = pos + 3" "end' link1 = e" by (simp_all add: e(1) s0)
  from e(3) p4 have esz: "e \<le> sz" by (auto simp: max_def split: if_splits)
  from assms(1) have szl: "sz \<le> length data" by simp
  from extend_end_spec [OF assms(2) szl, of link1] l1 esz obtain link2 where
    l2: "extend_end data sz link1 = Inr link2" "e \<le> end' link2" "end' link2 \<le> sz"
        "\<forall>j. e \<le> j \<and> j < end' link2 \<longrightarrow> \<not> isspace (data ! j)"
        "end' link2 < sz \<longrightarrow> isspace (data ! end' link2)"
    by auto
  from assms(1,3) have "start (link2\<lparr>start := pos\<rparr>) \<le> length data" by simp
  from url_rewind_spec [OF assms(2) this] obtain link3 where
    l3: "url_rewind data (link2\<lparr>start := pos\<rparr>) = Inr link3" "end' link3 = end' link2"
        "start link3 \<le> pos"
        "\<forall>j. start link3 \<le> j \<and> j < pos \<longrightarrow> isalpha (data ! j)"
        "start link3 = 0 \<or> \<not> isalpha (data ! (start link3 - 1))"
    by auto
  from l3(3) assms(3) have ss: "size_sub sz (start link3) = sz - start link3"
    by (simp add: size_sub_def)
  have len: "length (drop (start link3) data) = sz - start link3" by (simp add: assms(1))
  from assms(2) have "length (drop (start link3) data) \<le> SIZE_MAX" by simp
  from issafe_spec [OF this] obtain safe where
    safe: "autolink_issafe (drop (start link3) data) (sz - start link3) = Inr safe"
    unfolding len by blast
  from assms(5,6,7) have front: "autolink__url link data pos sz flags =
      (if \<not> safe then Inr (False, link3) else autolink_delim data link3)"
    unfolding url_front [OF assms(1-4)] link0_def [symmetric] cdr
    by (simp add: l2(1) l3(1) ss safe)
  have fl: "\<exists>l. autolink_delim data link3 = Inr (True, l) \<and> start l = start link3 \<and>
      pos + 4 \<le> end' l \<and> end' l \<le> end' link3"
  proof -
    have k1: "\<forall>j. start link3 \<le> j \<and> j < pos + 4 \<longrightarrow> data ! j \<noteq> CHR ''<''"
    proof (intro allI impI)
      fix j assume j: "start link3 \<le> j \<and> j < pos + 4"
      then consider "start link3 \<le> j \<and> j < pos" | "j = pos" | "j = pos + 1" | "j = pos + 2"
        | "j = pos + 3" by linarith
      then show "data ! j \<noteq> CHR ''<''"
      proof cases
        case 1
        with l3(4) show ?thesis by (intro alpha_plain) simp
      next
        case 2
        with assms(4) show ?thesis by simp
      next
        case 3
        with assms(6) show ?thesis by simp
      next
        case 4
        with assms(7) show ?thesis by simp
      next
        case 5
        with alnum_solid(4) [OF an] show ?thesis by simp
      qed
    qed
    have k2: "\<not> strchr ''?!.,:'' (data ! (pos + 4 - 1))" "data ! (pos + 4 - 1) \<noteq> CHR '';''"
      "copen_of (data ! (pos + 4 - 1)) = CHR 0x00"
    proof -
      have eq: "pos + 4 - 1 = pos + 3" by simp
      from alnum_solid(1-3) [OF an]
      show "\<not> strchr ''?!.,:'' (data ! (pos + 4 - 1))" "data ! (pos + 4 - 1) \<noteq> CHR '';''"
        "copen_of (data ! (pos + 4 - 1)) = CHR 0x00"
        unfolding eq by blast+
    qed
    have amp: "\<forall>j. pos + 2 \<le> j \<and> j < pos + 4 \<longrightarrow> data ! j \<noteq> CHR ''&''"
    proof (intro allI impI)
      fix j assume "pos + 2 \<le> j \<and> j < pos + 4"
      then have "j = pos + 2 \<or> j = pos + 3" by auto
      with assms(7) alnum_solid(5) [OF an] show "data ! j \<noteq> CHR ''&''" by auto
    qed
    have k3: "pos + 2 \<le> pos + 4" "pos + 2 < length data" "\<not> isalpha (data ! (pos + 2))"
      "data ! (pos + 2) \<noteq> CHR '';''"
      using assms(7) p4 assms(1) by (auto simp: isalpha_def)
    from e(2) l2(2) l3(2) have k4: "pos + 4 \<le> end' link3" by simp
    from l2(3) l3(2) assms(1) have k5: "end' link3 \<le> length data" by simp
    from l3(3) have k6: "start link3 < pos + 4" by simp
    from delim_floor [OF assms(2) k1 k2 k3 amp k4 k5 k6] show ?thesis .
  qed
  show ?thesis
  proof (cases safe)
    case True
    with front fl l1 l2 l3 safe show ?thesis by (intro exI [of _ link3] exI [of _ True]) auto
  next
    case False
    with front l1 l2 l3 safe show ?thesis by (intro exI [of _ link3] exI [of _ False]) auto
  qed
qed

lemma url_success_bounds:
  assumes "sz = length data" "length data \<le> SIZE_MAX" "pos < sz"
    and "autolink__url link data pos sz flags = Inr (True, l)"
  shows "start l \<le> pos \<and> pos + 4 \<le> end' l \<and> end' l \<le> sz"
proof -
  from assms(1-3) have r: "rd data pos = Inr (data ! pos)" by (simp add: rd_in)
  have colon: "data ! pos = CHR '':''"
  proof (rule ccontr)
    assume "data ! pos \<noteq> CHR '':''"
    with r have "autolink__url link data pos sz flags = Inl AssertFailed"
      by (simp add: autolink__url_def)
    with assms(4) show False by simp
  qed
  note front = url_front [OF assms(1-3) colon, of link flags]
  have c: "\<not> sz - pos < 4" "data ! (pos + 1) = CHR ''/''" "data ! (pos + 2) = CHR ''/''"
    using front assms(4) by (auto split: if_splits)
  define link0 where "link0 = link\<lparr>start := pos + 3, end' := 0\<rparr>"
  from c(1) have sl: "start link0 < sz" by (simp add: link0_def)
  from check_domain_spec [OF assms(1,2) sl, of "flags AND AUTOLINK_SHORT_DOMAINS \<noteq> 0"]
  obtain ok link1 where cd: "check_domain data sz link0 (flags AND AUTOLINK_SHORT_DOMAINS \<noteq> 0) = Inr (ok, link1)"
    by (cases "isalnum (data ! start link0)") auto
  have ok
  proof (rule ccontr)
    assume "\<not> ok"
    with front c cd have "autolink__url link data pos sz flags = Inr (False, link1)"
      by (simp add: link0_def)
    with assms(4) show False by simp
  qed
  with cd have cd': "check_domain data sz (link\<lparr>start := pos + 3, end' := 0\<rparr>)
      (flags AND AUTOLINK_SHORT_DOMAINS \<noteq> 0) = Inr (True, link1)"
    by (simp add: link0_def)
  from url_chain [OF assms(1-3) colon c cd'] assms(4) show ?thesis
    by (auto split: if_splits)
qed

section \<open>Running the trimmer on its own output\<close>

lemma cut_fixed:
  "delim_cut data i link = Inr l1 \<Longrightarrow> end' s \<le> end' l1 \<Longrightarrow> delim_cut data i s = Inr s"
proof (induction data i link rule: delim_cut.induct)
  case (1 data i link)
  note step = "1.prems"(1) [unfolded delim_cut.simps [of data i link]]
  show ?case
  proof (cases "i < end' link")
    case False
    with step "1.prems"(2) have "\<not> i < end' s" by auto
    then show ?thesis by (subst delim_cut.simps) simp
  next
    case True
    with step obtain c where c: "rd data i = Inr c" by (cases "rd data i") auto
    show ?thesis
    proof (cases "c = CHR ''<''")
      case lt: True
      with step True c "1.prems"(2) have "\<not> i < end' s" by auto
      then show ?thesis by (subst delim_cut.simps) simp
    next
      case False
      with step True c have "delim_cut data (i + 1) link = Inr l1" by simp
      from "1.IH" [OF True c False this "1.prems"(2)] c False show ?thesis
        by (subst delim_cut.simps) simp
    qed
  qed
qed

lemma cut_le: "delim_cut data i link = Inr l1 \<Longrightarrow> start l1 = start link \<and> end' l1 \<le> end' link"
proof (induction data i link rule: delim_cut.induct)
  case (1 data i link)
  note step = "1.prems"(1) [unfolded delim_cut.simps [of data i link]]
  show ?case
  proof (cases "i < end' link")
    case False
    with step show ?thesis by auto
  next
    case True
    with step obtain c where c: "rd data i = Inr c" by (cases "rd data i") auto
    show ?thesis
    proof (cases "c = CHR ''<''")
      case lt: True
      with step True c show ?thesis by auto
    next
      case False
      with step True c have "delim_cut data (i + 1) link = Inr l1" by simp
      from "1.IH" [OF True c False this] show ?thesis .
    qed
  qed
qed

section \<open>The character-reference step of the trimming loop\<close>

lemma entity_step:
  assumes "length data \<le> SIZE_MAX" "start link < end' link" "2 \<le> end' link"
    "end' link \<le> length data" "data ! (end' link - 1) = CHR '';''"
    and "m \<le> end' link - 2" "\<forall>j. m < j \<and> j \<le> end' link - 2 \<longrightarrow> isalpha (data ! j)"
      "m = 0 \<or> \<not> isalpha (data ! m)"
  shows "delim_trim data link =
     delim_trim data (link\<lparr>end' := (if m < end' link - 2 \<and> data ! m = CHR ''&'' then m
                                     else end' link - 1)\<rparr>)"
proof -
  from assms(3,4) have "end' link - 2 < length data" by simp
  from entity_walk_spec [OF assms(1) this] obtain m' where
    m': "entity_walk data (end' link - 2) = Inr m'" "m' \<le> end' link - 2"
        "\<forall>j. m' < j \<and> j \<le> end' link - 2 \<longrightarrow> isalpha (data ! j)"
        "m' = 0 \<or> \<not> isalpha (data ! m')"
    by blast
  have "m' = m"
  proof (rule ccontr)
    assume "m' \<noteq> m"
    then consider "m < m'" | "m' < m" by linarith
    then show False
    proof cases
      case 1
      with m'(2) assms(7) have "isalpha (data ! m')" by simp
      with m'(4) 1 show False by simp
    next
      case 2
      with assms(6) m'(3) have "isalpha (data ! m)" by simp
      with assms(8) 2 show False by simp
    qed
  qed
  with m'(1) have w: "entity_walk data (size_sub (end' link) 2) = Inr m"
    using assms(3) by (simp add: size_sub_def)
  from assms(3) have ss: "size_sub (end' link) 2 = end' link - 2" by (simp add: size_sub_def)
  from assms have r: "rd data (end' link - 1) = Inr CHR '';''" by (simp add: rd_in)
  have ns: "\<not> strchr ''?!.,:'' CHR '';''" by (simp add: strchr_def)
  show ?thesis
  proof (cases "m < end' link - 2")
    case False
    with assms(2) r ns w ss show ?thesis by (subst delim_trim.simps) simp
  next
    case True
    with assms(4) have "m < length data" by simp
    with assms(1) have rm: "rd data m = Inr (data ! m)" by (simp add: rd_in)
    from assms(2) r ns w ss True rm show ?thesis by (subst delim_trim.simps) simp
  qed
qed

section \<open>When the email matcher fails\<close>

lemma email_no_local_part:
  assumes "length data \<le> SIZE_MAX" "pos \<le> length data"
    and "pos = 0 \<or> \<not> local_char (data ! (pos - 1))"
  shows "autolink__email link data pos sz flags = Inr (False, link\<lparr>start := pos, end' := pos\<rparr>)"
proof -
  have "email_rewind data (link\<lparr>start := pos, end' := pos\<rparr>) = Inr (link\<lparr>start := pos, end' := pos\<rparr>)"
  proof (cases "pos = 0")
    case True
    then show ?thesis by (subst email_rewind.simps) simp
  next
    case False
    with assms have "rd data (pos - 1) = Inr (data ! (pos - 1))" "\<not> local_char (data ! (pos - 1))"
      by (simp_all add: rd_in)
    with False show ?thesis by (subst email_rewind.simps) (simp add: local_char_def)
  qed
  then show ?thesis by (simp add: autolink__email_def)
qed

lemma email_success_conditions:
  assumes "autolink__email link data pos sz flags = Inr (True, l)"
  shows "\<exists>l1 l2 nb np.
     email_rewind data (link\<lparr>start := pos, end' := pos\<rparr>) = Inr l1 \<and> start l1 < pos \<and>
     email_scan data sz l1 0 0 = Inr (l2, nb, np) \<and> 2 \<le> end' l2 - pos \<and> nb = 1 \<and> 0 < np"
proof -
  note run = assms [unfolded autolink__email_def]
  from run obtain l1 where l1: "email_rewind data (link\<lparr>start := pos, end' := pos\<rparr>) = Inr l1"
    by (cases "email_rewind data (link\<lparr>start := pos, end' := pos\<rparr>)") auto
  from email_rewind_props [OF l1] have p1: "end' l1 = pos" "start l1 \<le> pos" by auto
  from run l1 have ne: "start l1 \<noteq> pos" by (auto split: if_splits)
  with run l1 obtain l2 nb np where l2: "email_scan data sz l1 0 0 = Inr (l2, nb, np)"
    by (cases "email_scan data sz l1 0 0") auto
  from email_scan_props [OF l2] p1(1) have ge: "pos \<le> end' l2" by simp
  then have ss: "size_sub (end' l2) pos = end' l2 - pos" by (simp add: size_sub_def)
  from run l1 ne l2 have "\<not> (size_sub (end' l2) pos < 2 \<or> nb \<noteq> 1 \<or> np = 0)"
    by (auto split: if_splits)
  with ss have "2 \<le> end' l2 - pos" "nb = 1" "0 < np" by auto
  with l1 l2 p1(2) ne show ?thesis by (intro exI [of _ l1] exI [of _ l2] exI [of _ nb] exI [of _ np]) simp
qed

section \<open>The claims\<close>

text \<open>
  C1.  For a buffer of length \<open>sz\<close> and a trigger position inside it, whenever
  \<open>autolink__www\<close>, \<open>autolink__email\<close> or \<open>autolink__url\<close> returns success, the span
  it returns satisfies \<open>0 \<le> start < end \<le> sz\<close> (offsets are natural numbers, so
  \<open>0 \<le> start\<close> holds by type): the cut at \<open><\<close>, the trimming loop and the bracket
  step leave \<open>end\<close> above \<open>start\<close>.
\<close>

theorem success_span_bounds:
  assumes "sz = length data" "length data \<le> SIZE_MAX" "pos < sz"
  shows "(autolink__www link data pos sz flags = Inr (True, l) \<longrightarrow>
            0 \<le> start l \<and> start l < end' l \<and> end' l \<le> sz) \<and>
         (autolink__email link data pos sz flags = Inr (True, l) \<longrightarrow>
            0 \<le> start l \<and> start l < end' l \<and> end' l \<le> sz) \<and>
         (autolink__url link data pos sz flags = Inr (True, l) \<longrightarrow>
            0 \<le> start l \<and> start l < end' l \<and> end' l \<le> sz)"
proof -
  from assms(3) have le: "pos \<le> sz" by simp
  have "autolink__www link data pos sz flags = Inr (True, l) \<Longrightarrow> start l < end' l \<and> end' l \<le> sz"
    using www_success_bounds [OF assms(1,2) le, of link flags l] by simp
  moreover
  have "autolink__email link data pos sz flags = Inr (True, l) \<Longrightarrow> start l < end' l \<and> end' l \<le> sz"
    using email_success_bounds [OF assms(1,2) le, of link flags l] by simp
  moreover
  have "autolink__url link data pos sz flags = Inr (True, l) \<Longrightarrow> start l < end' l \<and> end' l \<le> sz"
    using url_success_bounds [OF assms, of link flags l] by simp
  ultimately show ?thesis by simp
qed

text \<open>
  The theorem at three matches: \<open>www.example.com\<close> inside \<open>see www.example.com.\<close>,
  \<open>a.b@example.com\<close> inside \<open>contact me at a.b@example.com.\<close>, and \<open>http://example.com\<close>
  inside \<open>http://example.com&amp;\<close>.
\<close>

theorem success_span_bounds_witness:
  "20 = length ''see www.example.com.'' \<and> length ''see www.example.com.'' \<le> SIZE_MAX \<and> (4::nat) < 20 \<and>
   autolink__www \<lparr>start = 0, end' = 0\<rparr> ''see www.example.com.'' 4 20 0 = Inr (True, \<lparr>start = 4, end' = 19\<rparr>) \<and>
   start \<lparr>start = 4, end' = 19\<rparr> < end' \<lparr>start = 4, end' = 19\<rparr> \<and> end' \<lparr>start = 4, end' = 19\<rparr> \<le> 20 \<and>
   30 = length ''contact me at a.b@example.com.'' \<and> (17::nat) < 30 \<and>
   autolink__email \<lparr>start = 0, end' = 0\<rparr> ''contact me at a.b@example.com.'' 17 30 0
     = Inr (True, \<lparr>start = 14, end' = 29\<rparr>) \<and>
   start \<lparr>start = 14, end' = 29\<rparr> < end' \<lparr>start = 14, end' = 29\<rparr> \<and> end' \<lparr>start = 14, end' = 29\<rparr> \<le> 30 \<and>
   23 = length ''http://example.com&amp;'' \<and> (4::nat) < 23 \<and>
   autolink__url \<lparr>start = 0, end' = 0\<rparr> ''http://example.com&amp;'' 4 23 0
     = Inr (True, \<lparr>start = 0, end' = 18\<rparr>) \<and>
   start \<lparr>start = 0, end' = 18\<rparr> < end' \<lparr>start = 0, end' = 18\<rparr> \<and> end' \<lparr>start = 0, end' = 18\<rparr> \<le> 23"
proof -
  have w: "20 = length ''see www.example.com.''" "length ''see www.example.com.'' \<le> SIZE_MAX" "(4::nat) < 20"
    by (simp_all add: SIZE_MAX_def)
  have wr: "autolink__www \<lparr>start = 0, end' = 0\<rparr> ''see www.example.com.'' 4 20 0 = Inr (True, \<lparr>start = 4, end' = 19\<rparr>)"
    by (simp add: run_eval ctype_eval)
  have m: "30 = length ''contact me at a.b@example.com.''"
    "length ''contact me at a.b@example.com.'' \<le> SIZE_MAX" "(17::nat) < 30"
    by (simp_all add: SIZE_MAX_def)
  have mr: "autolink__email \<lparr>start = 0, end' = 0\<rparr> ''contact me at a.b@example.com.'' 17 30 0
     = Inr (True, \<lparr>start = 14, end' = 29\<rparr>)"
    by (simp add: run_eval ctype_eval)
  have u: "23 = length ''http://example.com&amp;''" "length ''http://example.com&amp;'' \<le> SIZE_MAX"
    "(4::nat) < 23"
    by (simp_all add: SIZE_MAX_def)
  have ur: "autolink__url \<lparr>start = 0, end' = 0\<rparr> ''http://example.com&amp;'' 4 23 0
     = Inr (True, \<lparr>start = 0, end' = 18\<rparr>)"
    by (simp add: run_eval ctype_eval)
  from success_span_bounds [OF w, of "\<lparr>start = 0, end' = 0\<rparr>" 0 "\<lparr>start = 4, end' = 19\<rparr>"] wr
  have 1: "start \<lparr>start = 4, end' = 19\<rparr> < end' \<lparr>start = 4, end' = 19\<rparr> \<and> end' \<lparr>start = 4, end' = 19\<rparr> \<le> 20"
    by blast
  from success_span_bounds [OF m, of "\<lparr>start = 0, end' = 0\<rparr>" 0 "\<lparr>start = 14, end' = 29\<rparr>"] mr
  have 2: "start \<lparr>start = 14, end' = 29\<rparr> < end' \<lparr>start = 14, end' = 29\<rparr> \<and> end' \<lparr>start = 14, end' = 29\<rparr> \<le> 30"
    by blast
  from success_span_bounds [OF u, of "\<lparr>start = 0, end' = 0\<rparr>" 0 "\<lparr>start = 0, end' = 18\<rparr>"] ur
  have 3: "start \<lparr>start = 0, end' = 18\<rparr> < end' \<lparr>start = 0, end' = 18\<rparr> \<and> end' \<lparr>start = 0, end' = 18\<rparr> \<le> 23"
    by blast
  from w m u wr mr ur 1 2 3 show ?thesis by blast
qed

text \<open>
  C2.  The claim has the bracket step drop the final byte of the span, one of \<open>)\<close>, \<open>]\<close>,
  \<open>}\<close> and the two quotes, when its opener occurs in the span a different number of times
  than the byte itself, and keep it when the numbers are equal.  The code does so for
  \<open>)\<close>, \<open>]\<close> and \<open>}\<close> (\<open>balance_spec\<close>), but a quote is its own opener, and the counting
  loop counts a byte that equals the opener as an opening only: on \<open>http://a.b/'x'\<close> with
  the trigger at the colon, the trimming loop leaves the whole buffer, the quote occurs
  twice in it (it is opened and closed inside the span), the loop counts 2 openings and 0
  closings, and the final quote is dropped.  The same text with \<open>(x)\<close> for \<open>'x'\<close> keeps its
  final byte, and the two examples of the claim come out as it says.
\<close>

theorem quote_closed_inside_span:
  "delim_trim (''http://a.b/'' @ [CHR 0x27] @ ''x'' @ [CHR 0x27]) \<lparr>start = 0, end' = 14\<rparr>
     = Inr \<lparr>start = 0, end' = 14\<rparr> \<and>
   (''http://a.b/'' @ [CHR 0x27] @ ''x'' @ [CHR 0x27]) ! (14 - 1) = CHR 0x27 \<and>
   copen_of CHR 0x27 = CHR 0x27 \<and>
   count_list (span_bytes (''http://a.b/'' @ [CHR 0x27] @ ''x'' @ [CHR 0x27]) \<lparr>start = 0, end' = 14\<rparr>)
     CHR 0x27 = 2 \<and>
   delim_count (''http://a.b/'' @ [CHR 0x27] @ ''x'' @ [CHR 0x27]) CHR 0x27 CHR 0x27 0 14 0 0
     = Inr (2, 0) \<and>
   autolink__url link (''http://a.b/'' @ [CHR 0x27] @ ''x'' @ [CHR 0x27]) 4 14 flags
     = Inr (True, \<lparr>start = 0, end' = 13\<rparr>) \<and>
   autolink__url link ''http://a.b/(x)'' 4 14 flags = Inr (True, \<lparr>start = 0, end' = 14\<rparr>) \<and>
   autolink__url link ''(http://example.com/foo)'' 5 24 flags = Inr (True, \<lparr>start = 1, end' = 23\<rparr>) \<and>
   span_bytes ''(http://example.com/foo)'' \<lparr>start = 1, end' = 23\<rparr> = ''http://example.com/foo'' \<and>
   autolink__url link ''http://example.com/foo_(bar)'' 4 28 flags = Inr (True, \<lparr>start = 0, end' = 28\<rparr>)"
proof -
  have quote: "delim_trim (''http://a.b/'' @ [CHR 0x27] @ ''x'' @ [CHR 0x27]) \<lparr>start = 0, end' = 14\<rparr>
       = Inr \<lparr>start = 0, end' = 14\<rparr> \<and>
     (''http://a.b/'' @ [CHR 0x27] @ ''x'' @ [CHR 0x27]) ! (14 - 1) = CHR 0x27 \<and>
     copen_of CHR 0x27 = CHR 0x27 \<and>
     count_list (span_bytes (''http://a.b/'' @ [CHR 0x27] @ ''x'' @ [CHR 0x27]) \<lparr>start = 0, end' = 14\<rparr>)
       CHR 0x27 = 2 \<and>
     delim_count (''http://a.b/'' @ [CHR 0x27] @ ''x'' @ [CHR 0x27]) CHR 0x27 CHR 0x27 0 14 0 0
       = Inr (2, 0) \<and>
     autolink__url link (''http://a.b/'' @ [CHR 0x27] @ ''x'' @ [CHR 0x27]) 4 14 flags
       = Inr (True, \<lparr>start = 0, end' = 13\<rparr>)"
    by (simp add: run_eval ctype_eval)
  have paren: "autolink__url link ''http://a.b/(x)'' 4 14 flags = Inr (True, \<lparr>start = 0, end' = 14\<rparr>)"
    by (simp add: run_eval ctype_eval)
  have ex1: "autolink__url link ''(http://example.com/foo)'' 5 24 flags = Inr (True, \<lparr>start = 1, end' = 23\<rparr>)"
    by (simp add: run_eval ctype_eval)
  have ex2: "span_bytes ''(http://example.com/foo)'' \<lparr>start = 1, end' = 23\<rparr> = ''http://example.com/foo''"
    by (simp add: span_bytes_def)
  have ex3: "autolink__url link ''http://example.com/foo_(bar)'' 4 28 flags = Inr (True, \<lparr>start = 0, end' = 28\<rparr>)"
    by (simp add: run_eval ctype_eval)
  from quote paren ex1 ex2 ex3 show ?thesis by blast
qed

text \<open>
  C3 (as amended).  If the trimmer succeeds on a span and returns the span \<open>s\<close> that its
  trimming loop left, the bracket step having dropped nothing, then running the trimmer
  on \<open>s\<close> succeeds and returns \<open>s\<close> unchanged.
\<close>

theorem delim_idempotent_after_loop:
  assumes "delim_cut data (start link) link = Inr l1" "delim_trim data l1 = Inr s"
    and "autolink_delim data link = Inr (True, s)"
  shows "autolink_delim data s = Inr (True, s)"
proof -
  from trim_le [OF assms(2)] cut_le [OF assms(1)] have ss: "start s = start link" "end' s \<le> end' l1"
    by simp_all
  from cut_fixed [OF assms(1) ss(2)] ss(1) have c: "delim_cut data (start s) s = Inr s" by simp
  note t = trim_fixed [OF assms(2)]
  from assms(3) have b: "end' s \<noteq> start s" "delim_balance data s = Inr (True, s)"
    unfolding autolink_delim_def assms(1) by (auto simp: assms(2) split: if_splits)
  show ?thesis unfolding autolink_delim_def c by (simp add: t b)
qed

text \<open>The theorem at the span \<open>www.example.com.\<close> of \<open>see www.example.com.\<close>\<close>

theorem delim_idempotent_after_loop_witness:
  "delim_cut ''see www.example.com.'' (start \<lparr>start = 4, end' = 20\<rparr>) \<lparr>start = 4, end' = 20\<rparr>
     = Inr \<lparr>start = 4, end' = 20\<rparr> \<and>
   delim_trim ''see www.example.com.'' \<lparr>start = 4, end' = 20\<rparr> = Inr \<lparr>start = 4, end' = 19\<rparr> \<and>
   autolink_delim ''see www.example.com.'' \<lparr>start = 4, end' = 20\<rparr> = Inr (True, \<lparr>start = 4, end' = 19\<rparr>) \<and>
   autolink_delim ''see www.example.com.'' \<lparr>start = 4, end' = 19\<rparr> = Inr (True, \<lparr>start = 4, end' = 19\<rparr>)"
proof -
  have h: "delim_cut ''see www.example.com.'' (start \<lparr>start = 4, end' = 20\<rparr>) \<lparr>start = 4, end' = 20\<rparr>
       = Inr \<lparr>start = 4, end' = 20\<rparr>"
    "delim_trim ''see www.example.com.'' \<lparr>start = 4, end' = 20\<rparr> = Inr \<lparr>start = 4, end' = 19\<rparr>"
    "autolink_delim ''see www.example.com.'' \<lparr>start = 4, end' = 20\<rparr> = Inr (True, \<lparr>start = 4, end' = 19\<rparr>)"
    by (simp_all add: run_eval ctype_eval)
  from h delim_idempotent_after_loop [OF h] show ?thesis by blast
qed

text \<open>
  C3, as stated, fails when the bracket step drops a closer in front of punctuation: on
  \<open>http://example.com.)\<close> the first run drops the \<open>)\<close>, and the second run then trims the
  dot.
\<close>

theorem delim_idempotent_counterexample:
  "autolink_delim ''http://example.com.)'' \<lparr>start = 0, end' = 20\<rparr> = Inr (True, \<lparr>start = 0, end' = 19\<rparr>) \<and>
   autolink_delim ''http://example.com.)'' \<lparr>start = 0, end' = 19\<rparr> = Inr (True, \<lparr>start = 0, end' = 18\<rparr>) \<and>
   autolink__url \<lparr>start = 0, end' = 0\<rparr> ''http://example.com.)'' 4 20 0 = Inr (True, \<lparr>start = 0, end' = 19\<rparr>)"
  by (simp add: run_eval ctype_eval)

text \<open>
  C4.  In the trimming loop, let the last byte of the span be \<open>;\<close>, and let the walk
  backward over alphabetic bytes from \<open>end - 2\<close> stop at \<open>m\<close> (every byte in
  \<open>(m, end - 2]\<close> is alphabetic, and \<open>m\<close> is 0 or holds a byte that is not).  If
  \<open>m < end - 2\<close> and the byte at \<open>m\<close> is \<open>&\<close>, the loop goes on with \<open>end = m\<close>;
  otherwise it goes on with \<open>end - 1\<close>.  Matching \<open>http://example.com&amp;\<close> gives the
  span that covers exactly \<open>http://example.com\<close>.
\<close>

theorem entity_rule:
  assumes "length data \<le> SIZE_MAX" "start link < end' link" "2 \<le> end' link"
    "end' link \<le> length data" "data ! (end' link - 1) = CHR '';''"
    and "m \<le> end' link - 2" "\<forall>j. m < j \<and> j \<le> end' link - 2 \<longrightarrow> isalpha (data ! j)"
      "m = 0 \<or> \<not> isalpha (data ! m)"
  shows "delim_trim data link =
     delim_trim data (link\<lparr>end' := (if m < end' link - 2 \<and> data ! m = CHR ''&'' then m
                                     else end' link - 1)\<rparr>) \<and>
     autolink__url link0 ''http://example.com&amp;'' 4 23 flags = Inr (True, \<lparr>start = 0, end' = 18\<rparr>) \<and>
     span_bytes ''http://example.com&amp;'' \<lparr>start = 0, end' = 18\<rparr> = ''http://example.com''"
proof -
  have "autolink__url link0 ''http://example.com&amp;'' 4 23 flags = Inr (True, \<lparr>start = 0, end' = 18\<rparr>)"
    by (simp add: run_eval ctype_eval)
  moreover have "span_bytes ''http://example.com&amp;'' \<lparr>start = 0, end' = 18\<rparr> = ''http://example.com''"
    by (simp add: span_bytes_def)
  ultimately show ?thesis using entity_step [OF assms] by blast
qed

text \<open>
  The theorem at the whole of \<open>http://example.com&amp;\<close>, where the walk stops on the \<open>&\<close>
  at 18, and at the whole of \<open>http://a.b/c;\<close>, where it stops on the \<open>/\<close> at 10.
\<close>

theorem entity_rule_witness:
  "length ''http://example.com&amp;'' \<le> SIZE_MAX \<and>
   start \<lparr>start = 0, end' = 23\<rparr> < end' \<lparr>start = 0, end' = 23\<rparr> \<and>
   2 \<le> end' \<lparr>start = 0, end' = 23\<rparr> \<and>
   end' \<lparr>start = 0, end' = 23\<rparr> \<le> length ''http://example.com&amp;'' \<and>
   ''http://example.com&amp;'' ! (end' \<lparr>start = 0, end' = 23\<rparr> - 1) = CHR '';'' \<and>
   isalpha (''http://example.com&amp;'' ! 19) \<and> isalpha (''http://example.com&amp;'' ! 20) \<and>
   isalpha (''http://example.com&amp;'' ! 21) \<and> ''http://example.com&amp;'' ! 18 = CHR ''&'' \<and>
   delim_trim ''http://example.com&amp;'' \<lparr>start = 0, end' = 23\<rparr>
     = delim_trim ''http://example.com&amp;'' \<lparr>start = 0, end' = 18\<rparr> \<and>
   delim_trim ''http://a.b/c;'' \<lparr>start = 0, end' = 13\<rparr>
     = delim_trim ''http://a.b/c;'' \<lparr>start = 0, end' = 12\<rparr>"
proof -
  have h: "length ''http://example.com&amp;'' \<le> SIZE_MAX"
    "start \<lparr>start = 0, end' = 23\<rparr> < end' \<lparr>start = 0, end' = 23\<rparr>"
    "2 \<le> end' \<lparr>start = 0, end' = 23\<rparr>"
    "end' \<lparr>start = 0, end' = 23\<rparr> \<le> length ''http://example.com&amp;''"
    "''http://example.com&amp;'' ! (end' \<lparr>start = 0, end' = 23\<rparr> - 1) = CHR '';''"
    by (simp_all add: SIZE_MAX_def)
  have a: "isalpha (''http://example.com&amp;'' ! 19)" "isalpha (''http://example.com&amp;'' ! 20)"
    "isalpha (''http://example.com&amp;'' ! 21)" "''http://example.com&amp;'' ! 18 = CHR ''&''"
    by (simp_all add: isalpha_def)
  have w: "18 \<le> end' \<lparr>start = 0, end' = 23\<rparr> - 2"
    "\<forall>j. 18 < j \<and> j \<le> end' \<lparr>start = 0, end' = 23\<rparr> - 2 \<longrightarrow> isalpha (''http://example.com&amp;'' ! j)"
    "(18::nat) = 0 \<or> \<not> isalpha (''http://example.com&amp;'' ! 18)"
  proof -
    show "18 \<le> end' \<lparr>start = 0, end' = 23\<rparr> - 2" by simp
    show "(18::nat) = 0 \<or> \<not> isalpha (''http://example.com&amp;'' ! 18)" by (simp add: isalpha_def)
    show "\<forall>j. 18 < j \<and> j \<le> end' \<lparr>start = 0, end' = 23\<rparr> - 2 \<longrightarrow> isalpha (''http://example.com&amp;'' ! j)"
    proof (intro allI impI)
      fix j :: nat assume "18 < j \<and> j \<le> end' \<lparr>start = 0, end' = 23\<rparr> - 2"
      then have "j = 19 \<or> j = 20 \<or> j = 21" by auto
      with a show "isalpha (''http://example.com&amp;'' ! j)" by auto
    qed
  qed
  have h2: "length ''http://a.b/c;'' \<le> SIZE_MAX"
    "start \<lparr>start = 0, end' = 13\<rparr> < end' \<lparr>start = 0, end' = 13\<rparr>"
    "2 \<le> end' \<lparr>start = 0, end' = 13\<rparr>"
    "end' \<lparr>start = 0, end' = 13\<rparr> \<le> length ''http://a.b/c;''"
    "''http://a.b/c;'' ! (end' \<lparr>start = 0, end' = 13\<rparr> - 1) = CHR '';''"
    by (simp_all add: SIZE_MAX_def)
  have w2: "10 \<le> end' \<lparr>start = 0, end' = 13\<rparr> - 2"
    "\<forall>j. 10 < j \<and> j \<le> end' \<lparr>start = 0, end' = 13\<rparr> - 2 \<longrightarrow> isalpha (''http://a.b/c;'' ! j)"
    "(10::nat) = 0 \<or> \<not> isalpha (''http://a.b/c;'' ! 10)"
  proof -
    show "10 \<le> end' \<lparr>start = 0, end' = 13\<rparr> - 2" by simp
    show "(10::nat) = 0 \<or> \<not> isalpha (''http://a.b/c;'' ! 10)" by (simp add: isalpha_def)
    show "\<forall>j. 10 < j \<and> j \<le> end' \<lparr>start = 0, end' = 13\<rparr> - 2 \<longrightarrow> isalpha (''http://a.b/c;'' ! j)"
    proof (intro allI impI)
      fix j :: nat assume "10 < j \<and> j \<le> end' \<lparr>start = 0, end' = 13\<rparr> - 2"
      then have "j = 11" by auto
      then show "isalpha (''http://a.b/c;'' ! j)" by (simp add: isalpha_def)
    qed
  qed
  from entity_rule [OF h w]
  have 1: "delim_trim ''http://example.com&amp;'' \<lparr>start = 0, end' = 23\<rparr>
     = delim_trim ''http://example.com&amp;'' \<lparr>start = 0, end' = 18\<rparr>"
    by simp
  from entity_rule [OF h2 w2]
  have 2: "delim_trim ''http://a.b/c;'' \<lparr>start = 0, end' = 13\<rparr>
     = delim_trim ''http://a.b/c;'' \<lparr>start = 0, end' = 12\<rparr>"
    by simp
  from h a 1 2 show ?thesis by blast
qed

text \<open>
  C5 (as amended).  For a buffer of length \<open>sz\<close> and a span whose start is inside it,
  \<open>check_domain\<close> fails when the first byte is not alphanumeric.  Otherwise it sets
  \<open>end\<close> to \<open>e\<close>, where every byte in \<open>[start + 1, e)\<close> is alphanumeric, \<open>-\<close> or \<open>.\<close>, and
  either \<open>e < sz - 1\<close> and the byte at \<open>e\<close> is none of these, or \<open>e\<close> is the larger of
  \<open>start + 1\<close> and \<open>sz - 1\<close> (the final byte is never scanned); it then succeeds when
  short domains are allowed, and otherwise exactly when a \<open>.\<close> lies in \<open>[start + 1, e)\<close>.
\<close>

theorem check_domain_end:
  assumes "sz = length data" "length data \<le> SIZE_MAX" "start link < sz"
  shows "(\<not> isalnum (data ! start link) \<longrightarrow>
            check_domain data sz link allow_short = Inr (False, link)) \<and>
         (isalnum (data ! start link) \<longrightarrow>
            (\<exists>e. check_domain data sz link allow_short =
                   Inr (allow_short \<or>
                        CHR ''.'' \<in> set (take (e - (start link + 1)) (drop (start link + 1) data)),
                        link\<lparr>end' := e\<rparr>) \<and>
                 start link + 1 \<le> e \<and>
                 (\<forall>j. start link + 1 \<le> j \<and> j < e \<longrightarrow> domain_char (data ! j)) \<and>
                 (if e < sz - 1 then \<not> domain_char (data ! e)
                  else e = max (start link + 1) (sz - 1))))"
  by (rule check_domain_spec [OF assms])

text \<open>
  The theorem at \<open>http://foo\<close> with the span starting at \<open>foo\<close>: without short domains
  the validator fails for want of a dot, with them it succeeds; the end is 9, the final
  byte not being scanned.
\<close>

theorem check_domain_end_witness:
  "10 = length ''http://foo'' \<and> length ''http://foo'' \<le> SIZE_MAX \<and>
   start \<lparr>start = 7, end' = 0\<rparr> < 10 \<and> isalnum (''http://foo'' ! 7) \<and>
   check_domain ''http://foo'' 10 \<lparr>start = 7, end' = 0\<rparr> False = Inr (False, \<lparr>start = 7, end' = 9\<rparr>) \<and>
   check_domain ''http://foo'' 10 \<lparr>start = 7, end' = 0\<rparr> True = Inr (True, \<lparr>start = 7, end' = 9\<rparr>)"
proof -
  have h: "10 = length ''http://foo''" "length ''http://foo'' \<le> SIZE_MAX"
    "start \<lparr>start = 7, end' = 0\<rparr> < 10"
    by (simp_all add: SIZE_MAX_def)
  show ?thesis
    using h check_domain_end [OF h, of False] check_domain_end [OF h, of True]
    by (simp add: run_eval ctype_eval)
qed

text \<open>
  C5, as stated, fails where the span starts at the final byte: the claim puts \<open>end\<close> at
  \<open>length - 1\<close>, the code at \<open>start + 1 = length\<close>.
\<close>

theorem check_domain_end_counterexample:
  "isalnum (''http://b'' ! 7) \<and>
   check_domain ''http://b'' 8 \<lparr>start = 7, end' = 0\<rparr> True = Inr (True, \<lparr>start = 7, end' = 8\<rparr>) \<and>
   claimed_domain_end ''http://b'' 8 7 = 7"
  by (simp add: run_eval ctype_eval claimed_domain_end_def)

text \<open>
  C6.  For a buffer of length \<open>sz\<close> and a trigger position \<open>pos\<close> in it,
  \<open>autolink__www\<close> fails if \<open>pos > 0\<close> and the byte before \<open>pos\<close> is neither punctuation
  nor whitespace, and fails if fewer than 4 bytes remain at \<open>pos\<close> or the 4 bytes there
  are not exactly \<open>www.\<close>.  On \<open>see www.example.com.\<close> with the trigger at the \<open>w\<close> it
  succeeds with the span covering exactly \<open>www.example.com\<close>; on \<open>xwww.example.com\<close> with
  the trigger at the first \<open>w\<close> it fails.
\<close>

theorem www_start_conditions:
  assumes "sz = length data" "length data \<le> SIZE_MAX" "pos \<le> sz"
  shows "(0 < pos \<and> \<not> ispunct (data ! (pos - 1)) \<and> \<not> isspace (data ! (pos - 1)) \<longrightarrow>
            autolink__www link data pos sz flags = Inr (False, link)) \<and>
         (sz - pos < 4 \<or> take 4 (drop pos data) \<noteq> ''www.'' \<longrightarrow>
            autolink__www link data pos sz flags = Inr (False, link)) \<and>
         autolink__www link ''see www.example.com.'' 4 20 flags = Inr (True, \<lparr>start = 4, end' = 19\<rparr>) \<and>
         span_bytes ''see www.example.com.'' \<lparr>start = 4, end' = 19\<rparr> = ''www.example.com'' \<and>
         autolink__www link ''xwww.example.com'' 1 16 flags = Inr (False, link)"
proof -
  have "autolink__www link ''see www.example.com.'' 4 20 flags = Inr (True, \<lparr>start = 4, end' = 19\<rparr>)"
    by (simp add: run_eval ctype_eval)
  moreover have "span_bytes ''see www.example.com.'' \<lparr>start = 4, end' = 19\<rparr> = ''www.example.com''"
    by (simp add: span_bytes_def)
  moreover have "autolink__www link ''xwww.example.com'' 1 16 flags = Inr (False, link)"
    by (simp add: run_eval ctype_eval)
  ultimately show ?thesis using www_fail [OF assms, of link flags] by blast
qed

text \<open>The theorem at \<open>awww.b.c\<close> with the trigger at 1, after the letter \<open>a\<close>.\<close>

theorem www_start_conditions_witness:
  "8 = length ''awww.b.c'' \<and> length ''awww.b.c'' \<le> SIZE_MAX \<and> (1::nat) \<le> 8 \<and>
   \<not> ispunct (''awww.b.c'' ! (1 - 1)) \<and> \<not> isspace (''awww.b.c'' ! (1 - 1)) \<and>
   autolink__www \<lparr>start = 0, end' = 0\<rparr> ''awww.b.c'' 1 8 0 = Inr (False, \<lparr>start = 0, end' = 0\<rparr>)"
proof -
  have h: "8 = length ''awww.b.c''" "length ''awww.b.c'' \<le> SIZE_MAX" "(1::nat) \<le> 8"
    by (simp_all add: SIZE_MAX_def)
  show ?thesis
    using h www_start_conditions [OF h, of "\<lparr>start = 0, end' = 0\<rparr>" 0]
    by (simp add: ctype_eval)
qed

text \<open>
  C7.  The claim puts the backward walk of the email matcher over alphanumeric bytes and
  \<open>.\<close>, \<open>+\<close>, \<open>-\<close>, \<open>_\<close>, and has the match fail when that walk does not move \<open>start\<close>.
  The code tests the four bytes with \<open>strchr\<close>, which also finds the byte 0: on the
  five bytes NUL, \<open>@a.b\<close> with the trigger at the \<open>@\<close>, the byte before the trigger is
  none of those the claim names, and the match succeeds with the span \<open>[0, 5)\<close>, the
  NUL included.  The two examples of the claim come out as it says.  Where the byte
  before the trigger is none of those the code walks over, the match does fail
  (\<open>email_no_local_part\<close>), and a success has the counts the claim asks for
  (\<open>email_success_conditions\<close>).
\<close>

theorem email_nul_before_at:
  "\<not> isalnum CHR 0x00 \<and> CHR 0x00 \<notin> set ''.+-_'' \<and>
   autolink__email link (CHR 0x00 # ''@a.b'') 1 5 flags = Inr (True, \<lparr>start = 0, end' = 5\<rparr>) \<and>
   autolink__email link ''contact me at a.b@example.com.'' 17 30 flags
     = Inr (True, \<lparr>start = 14, end' = 29\<rparr>) \<and>
   span_bytes ''contact me at a.b@example.com.'' \<lparr>start = 14, end' = 29\<rparr> = ''a.b@example.com'' \<and>
   autolink__email link ''@example.com'' 0 12 flags = Inr (False, link\<lparr>start := 0, end' := 0\<rparr>)"
  by (simp add: run_eval ctype_eval)
text \<open>
  C8.  For a buffer of length \<open>sz\<close> and a trigger position \<open>pos\<close> holding \<open>:\<close>,
  \<open>autolink__url\<close> fails unless at least 4 bytes remain at \<open>pos\<close> and the two bytes after
  the colon are both \<open>/\<close>; it fails too when the domain validation does.  When the domain
  validation succeeds and leaves the span \<open>link1\<close>, let \<open>e\<close> be where the bytes that are not
  whitespace end, from the end of \<open>link1\<close> on (the offset of the first whitespace byte, or
  \<open>sz\<close>), and let \<open>s\<close> be where the alphabetic bytes before \<open>pos\<close> begin.  The match fails,
  leaving the span \<open>[s, e)\<close>, exactly when \<open>autolink_issafe\<close> rejects the slice that begins at
  \<open>s\<close>; otherwise it succeeds, and its span is the one the trimmer makes of \<open>[s, e)\<close>.
\<close>

theorem url_scheme_gate:
  assumes "sz = length data" "length data \<le> SIZE_MAX" "pos < sz" "data ! pos = CHR '':''"
  shows "(sz - pos < 4 \<or> data ! (pos + 1) \<noteq> CHR ''/'' \<or> data ! (pos + 2) \<noteq> CHR ''/'' \<longrightarrow>
            autolink__url link data pos sz flags = Inr (False, link)) \<and>
         (\<not> sz - pos < 4 \<and> data ! (pos + 1) = CHR ''/'' \<and> data ! (pos + 2) = CHR ''/'' \<and>
          check_domain data sz (link\<lparr>start := pos + 3, end' := 0\<rparr>)
            (flags AND AUTOLINK_SHORT_DOMAINS \<noteq> 0) = Inr (False, link1) \<longrightarrow>
            autolink__url link data pos sz flags = Inr (False, link1)) \<and>
         (\<not> sz - pos < 4 \<and> data ! (pos + 1) = CHR ''/'' \<and> data ! (pos + 2) = CHR ''/'' \<and>
          check_domain data sz (link\<lparr>start := pos + 3, end' := 0\<rparr>)
            (flags AND AUTOLINK_SHORT_DOMAINS \<noteq> 0) = Inr (True, link1) \<longrightarrow>
            (\<exists>e s safe.
               end' link1 \<le> e \<and> e \<le> sz \<and>
               (\<forall>j. end' link1 \<le> j \<and> j < e \<longrightarrow> \<not> isspace (data ! j)) \<and>
               (e < sz \<longrightarrow> isspace (data ! e)) \<and>
               s \<le> pos \<and> (\<forall>j. s \<le> j \<and> j < pos \<longrightarrow> isalpha (data ! j)) \<and>
               (s = 0 \<or> \<not> isalpha (data ! (s - 1))) \<and>
               autolink_issafe (drop s data) (sz - s) = Inr safe \<and>
               (if safe
                then \<exists>l. autolink_delim data \<lparr>start = s, end' = e\<rparr> = Inr (True, l) \<and>
                       autolink__url link data pos sz flags = Inr (True, l)
                else autolink__url link data pos sz flags = Inr (False, \<lparr>start = s, end' = e\<rparr>))))"
proof (intro conjI impI)
  assume "sz - pos < 4 \<or> data ! (pos + 1) \<noteq> CHR ''/'' \<or> data ! (pos + 2) \<noteq> CHR ''/''"
  then show "autolink__url link data pos sz flags = Inr (False, link)"
    by (simp add: url_front [OF assms])
next
  assume "\<not> sz - pos < 4 \<and> data ! (pos + 1) = CHR ''/'' \<and> data ! (pos + 2) = CHR ''/'' \<and>
    check_domain data sz (link\<lparr>start := pos + 3, end' := 0\<rparr>)
      (flags AND AUTOLINK_SHORT_DOMAINS \<noteq> 0) = Inr (False, link1)"
  then show "autolink__url link data pos sz flags = Inr (False, link1)"
    by (simp add: url_front [OF assms])
next
  assume a: "\<not> sz - pos < 4 \<and> data ! (pos + 1) = CHR ''/'' \<and> data ! (pos + 2) = CHR ''/'' \<and>
    check_domain data sz (link\<lparr>start := pos + 3, end' := 0\<rparr>)
      (flags AND AUTOLINK_SHORT_DOMAINS \<noteq> 0) = Inr (True, link1)"
  then have c: "\<not> sz - pos < 4" "data ! (pos + 1) = CHR ''/''" "data ! (pos + 2) = CHR ''/''"
    "check_domain data sz (link\<lparr>start := pos + 3, end' := 0\<rparr>)
      (flags AND AUTOLINK_SHORT_DOMAINS \<noteq> 0) = Inr (True, link1)"
    by blast+
  from url_chain [OF assms c] obtain link3 safe where
    ch: "end' link1 \<le> end' link3" "end' link3 \<le> sz"
        "\<forall>j. end' link1 \<le> j \<and> j < end' link3 \<longrightarrow> \<not> isspace (data ! j)"
        "end' link3 < sz \<longrightarrow> isspace (data ! end' link3)"
        "start link3 \<le> pos"
        "\<forall>j. start link3 \<le> j \<and> j < pos \<longrightarrow> isalpha (data ! j)"
        "start link3 = 0 \<or> \<not> isalpha (data ! (start link3 - 1))"
        "autolink_issafe (drop (start link3) data) (sz - start link3) = Inr safe"
        "if safe
         then \<exists>l. autolink__url link data pos sz flags = Inr (True, l) \<and>
                autolink_delim data link3 = Inr (True, l) \<and>
                start l = start link3 \<and> pos + 4 \<le> end' l \<and> end' l \<le> end' link3
         else autolink__url link data pos sz flags = Inr (False, link3)"
    by blast
  have rec: "\<lparr>start = start link3, end' = end' link3\<rparr> = link3" by (cases link3) simp
  from ch(9) have "if safe
      then \<exists>l. autolink_delim data link3 = Inr (True, l) \<and>
             autolink__url link data pos sz flags = Inr (True, l)
      else autolink__url link data pos sz flags = Inr (False, link3)"
    by (cases safe) auto
  then have res: "if safe
      then \<exists>l. autolink_delim data \<lparr>start = start link3, end' = end' link3\<rparr> = Inr (True, l) \<and>
             autolink__url link data pos sz flags = Inr (True, l)
      else autolink__url link data pos sz flags = Inr (False, \<lparr>start = start link3, end' = end' link3\<rparr>)"
    unfolding rec .
  from ch(1-8) res show "\<exists>e s safe.
       end' link1 \<le> e \<and> e \<le> sz \<and>
       (\<forall>j. end' link1 \<le> j \<and> j < e \<longrightarrow> \<not> isspace (data ! j)) \<and>
       (e < sz \<longrightarrow> isspace (data ! e)) \<and>
       s \<le> pos \<and> (\<forall>j. s \<le> j \<and> j < pos \<longrightarrow> isalpha (data ! j)) \<and>
       (s = 0 \<or> \<not> isalpha (data ! (s - 1))) \<and>
       autolink_issafe (drop s data) (sz - s) = Inr safe \<and>
       (if safe
        then \<exists>l. autolink_delim data \<lparr>start = s, end' = e\<rparr> = Inr (True, l) \<and>
               autolink__url link data pos sz flags = Inr (True, l)
        else autolink__url link data pos sz flags = Inr (False, \<lparr>start = s, end' = e\<rparr>))"
    by (intro exI [of _ "end' link3"] exI [of _ "start link3"] exI [of _ safe]) simp
qed

text \<open>
  The theorem at \<open>http://a.b/path more\<close> with the trigger at the colon: the domain
  validation stops at 10, the extension runs over \<open>/path\<close> to the space at 15, the scheme
  is safe, and the match succeeds with the span \<open>[0, 15)\<close>.  And at
  \<open>see gopher://a.b/x now\<close>: the extension runs to 18, the start goes back to 4, the scheme
  \<open>gopher\<close> is not in the whitelist, and the match fails, leaving \<open>[4, 18)\<close>.
\<close>

theorem url_scheme_gate_witness:
  "20 = length ''http://a.b/path more'' \<and> length ''http://a.b/path more'' \<le> SIZE_MAX \<and>
   (4::nat) < 20 \<and> ''http://a.b/path more'' ! 4 = CHR '':'' \<and>
   \<not> (20::nat) - 4 < 4 \<and> ''http://a.b/path more'' ! (4 + 1) = CHR ''/'' \<and>
   ''http://a.b/path more'' ! (4 + 2) = CHR ''/'' \<and>
   check_domain ''http://a.b/path more'' 20 (\<lparr>start = 0, end' = 0\<rparr>\<lparr>start := 4 + 3, end' := 0\<rparr>)
     (0 AND AUTOLINK_SHORT_DOMAINS \<noteq> 0) = Inr (True, \<lparr>start = 7, end' = 10\<rparr>) \<and>
   autolink_issafe (drop 0 ''http://a.b/path more'') (20 - 0) = Inr True \<and>
   autolink_delim ''http://a.b/path more'' \<lparr>start = 0, end' = 15\<rparr> = Inr (True, \<lparr>start = 0, end' = 15\<rparr>) \<and>
   autolink__url \<lparr>start = 0, end' = 0\<rparr> ''http://a.b/path more'' 4 20 0
     = Inr (True, \<lparr>start = 0, end' = 15\<rparr>) \<and>
   22 = length ''see gopher://a.b/x now'' \<and> length ''see gopher://a.b/x now'' \<le> SIZE_MAX \<and>
   (10::nat) < 22 \<and> ''see gopher://a.b/x now'' ! 10 = CHR '':'' \<and>
   \<not> (22::nat) - 10 < 4 \<and> ''see gopher://a.b/x now'' ! (10 + 1) = CHR ''/'' \<and>
   ''see gopher://a.b/x now'' ! (10 + 2) = CHR ''/'' \<and>
   check_domain ''see gopher://a.b/x now'' 22 (\<lparr>start = 0, end' = 0\<rparr>\<lparr>start := 10 + 3, end' := 0\<rparr>)
     (0 AND AUTOLINK_SHORT_DOMAINS \<noteq> 0) = Inr (True, \<lparr>start = 13, end' = 16\<rparr>) \<and>
   autolink_issafe (drop 4 ''see gopher://a.b/x now'') (22 - 4) = Inr False \<and>
   autolink__url \<lparr>start = 0, end' = 0\<rparr> ''see gopher://a.b/x now'' 10 22 0
     = Inr (False, \<lparr>start = 4, end' = 18\<rparr>)"
proof -
  have h: "20 = length ''http://a.b/path more''" "length ''http://a.b/path more'' \<le> SIZE_MAX"
    "(4::nat) < 20" "''http://a.b/path more'' ! 4 = CHR '':''"
    by (simp_all add: SIZE_MAX_def)
  have g: "22 = length ''see gopher://a.b/x now''" "length ''see gopher://a.b/x now'' \<le> SIZE_MAX"
    "(10::nat) < 22" "''see gopher://a.b/x now'' ! 10 = CHR '':''"
    by (simp_all add: SIZE_MAX_def)
  have pre: "\<not> (20::nat) - 4 < 4" "''http://a.b/path more'' ! (4 + 1) = CHR ''/''"
    "''http://a.b/path more'' ! (4 + 2) = CHR ''/''"
    by simp_all
  have cd: "check_domain ''http://a.b/path more'' 20 (\<lparr>start = 0, end' = 0\<rparr>\<lparr>start := 4 + 3, end' := 0\<rparr>)
       (0 AND AUTOLINK_SHORT_DOMAINS \<noteq> 0) = Inr (True, \<lparr>start = 7, end' = 10\<rparr>)"
    by (simp add: run_eval ctype_eval)
  have safe0: "autolink_issafe (drop 0 ''http://a.b/path more'') (20 - 0) = Inr True"
    by (simp add: run_eval ctype_eval)
  have del: "autolink_delim ''http://a.b/path more'' \<lparr>start = 0, end' = 15\<rparr>
      = Inr (True, \<lparr>start = 0, end' = 15\<rparr>)"
    by (simp add: run_eval ctype_eval)
  from url_scheme_gate [OF h, of "\<lparr>start = 0, end' = 0\<rparr>" 0 "\<lparr>start = 7, end' = 10\<rparr>"] pre cd
  obtain e s safe where
    p: "end' \<lparr>start = 7, end' = 10\<rparr> \<le> e"
       "\<forall>j. end' \<lparr>start = 7, end' = 10\<rparr> \<le> j \<and> j < e \<longrightarrow> \<not> isspace (''http://a.b/path more'' ! j)"
       "e < 20 \<longrightarrow> isspace (''http://a.b/path more'' ! e)"
       "s \<le> 4" "s = 0 \<or> \<not> isalpha (''http://a.b/path more'' ! (s - 1))"
       "autolink_issafe (drop s ''http://a.b/path more'') (20 - s) = Inr safe"
       "if safe
        then \<exists>l. autolink_delim ''http://a.b/path more'' \<lparr>start = s, end' = e\<rparr> = Inr (True, l) \<and>
               autolink__url \<lparr>start = 0, end' = 0\<rparr> ''http://a.b/path more'' 4 20 0 = Inr (True, l)
        else autolink__url \<lparr>start = 0, end' = 0\<rparr> ''http://a.b/path more'' 4 20 0
               = Inr (False, \<lparr>start = s, end' = e\<rparr>)"
    by blast
  have e15: "e = 15"
  proof (rule ccontr)
    assume "e \<noteq> 15"
    then consider "15 < e" | "e < 15" by linarith
    then show False
    proof cases
      case 1
      then have "end' \<lparr>start = 7, end' = 10\<rparr> \<le> 15 \<and> 15 < e" by simp
      with p(2) have "\<not> isspace (''http://a.b/path more'' ! 15)" by blast
      then show False by (simp add: isspace_def)
    next
      case 2
      with p(3) have sp: "isspace (''http://a.b/path more'' ! e)" by simp
      from 2 p(1) have "e = 10 \<or> e = 11 \<or> e = 12 \<or> e = 13 \<or> e = 14" by auto
      with sp show False by (auto simp: isspace_def)
    qed
  qed
  have s0: "s = 0"
  proof (rule ccontr)
    assume "s \<noteq> 0"
    with p(5) have na: "\<not> isalpha (''http://a.b/path more'' ! (s - 1))" by simp
    from \<open>s \<noteq> 0\<close> p(4) have "s = 1 \<or> s = 2 \<or> s = 3 \<or> s = 4" by auto
    with na show False by (auto simp: isalpha_def)
  qed
  from p(6) safe0 have "safe" by (simp add: s0)
  with p(7) del have "autolink__url \<lparr>start = 0, end' = 0\<rparr> ''http://a.b/path more'' 4 20 0
       = Inr (True, \<lparr>start = 0, end' = 15\<rparr>)"
    by (simp add: s0 e15)
  with pre cd safe0 del
  have 1: "\<not> (20::nat) - 4 < 4 \<and> ''http://a.b/path more'' ! (4 + 1) = CHR ''/'' \<and>
     ''http://a.b/path more'' ! (4 + 2) = CHR ''/'' \<and>
     check_domain ''http://a.b/path more'' 20 (\<lparr>start = 0, end' = 0\<rparr>\<lparr>start := 4 + 3, end' := 0\<rparr>)
       (0 AND AUTOLINK_SHORT_DOMAINS \<noteq> 0) = Inr (True, \<lparr>start = 7, end' = 10\<rparr>) \<and>
     autolink_issafe (drop 0 ''http://a.b/path more'') (20 - 0) = Inr True \<and>
     autolink_delim ''http://a.b/path more'' \<lparr>start = 0, end' = 15\<rparr> = Inr (True, \<lparr>start = 0, end' = 15\<rparr>) \<and>
     autolink__url \<lparr>start = 0, end' = 0\<rparr> ''http://a.b/path more'' 4 20 0
       = Inr (True, \<lparr>start = 0, end' = 15\<rparr>)"
    by blast
  have 2: "\<not> (22::nat) - 10 < 4 \<and> ''see gopher://a.b/x now'' ! (10 + 1) = CHR ''/'' \<and>
     ''see gopher://a.b/x now'' ! (10 + 2) = CHR ''/'' \<and>
     check_domain ''see gopher://a.b/x now'' 22 (\<lparr>start = 0, end' = 0\<rparr>\<lparr>start := 10 + 3, end' := 0\<rparr>)
       (0 AND AUTOLINK_SHORT_DOMAINS \<noteq> 0) = Inr (True, \<lparr>start = 13, end' = 16\<rparr>) \<and>
     autolink_issafe (drop 4 ''see gopher://a.b/x now'') (22 - 4) = Inr False \<and>
     autolink__url \<lparr>start = 0, end' = 0\<rparr> ''see gopher://a.b/x now'' 10 22 0
       = Inr (False, \<lparr>start = 4, end' = 18\<rparr>)"
    using url_scheme_gate [OF g, of "\<lparr>start = 0, end' = 0\<rparr>" 0 "\<lparr>start = 13, end' = 16\<rparr>"]
    by (simp add: run_eval ctype_eval)
  from h g 1 2 show ?thesis by blast
qed

text \<open>
  C9.  For a slice and its length, \<open>autolink_issafe\<close> returns true exactly when the slice
  begins, ASCII case-insensitively, with one of the prefixes \<open>/\<close>, \<open>http://\<close>,
  \<open>https://\<close>, \<open>ftp://\<close>, \<open>mailto:\<close>, is strictly longer than that prefix, and has an
  alphanumeric byte right after it.  So \<open>HTTP://x\<close> is accepted, and \<open>http://\<close> and
  \<open>httpx\<close> are rejected.
\<close>

theorem issafe_iff_prefix:
  assumes "length link \<le> SIZE_MAX"
  shows "autolink_issafe link (length link) =
       Inr (\<exists>p \<in> set [''/'', ''http://'', ''https://'', ''ftp://'', ''mailto:''].
              begins_nocase link p \<and> length p < length link \<and> isalnum (link ! length p)) \<and>
     autolink_issafe ''HTTP://x'' 8 = Inr True \<and>
     autolink_issafe ''http://'' 7 = Inr False \<and>
     autolink_issafe ''httpx'' 5 = Inr False"
proof -
  have "autolink_issafe ''HTTP://x'' 8 = Inr True" by (simp add: run_eval ctype_eval)
  moreover have "autolink_issafe ''http://'' 7 = Inr False" by (simp add: run_eval ctype_eval)
  moreover have "autolink_issafe ''httpx'' 5 = Inr False" by (simp add: run_eval ctype_eval)
  ultimately show ?thesis using issafe_spec [OF assms] by (simp only: valid_uris_def simp_thms)
qed

text \<open>The theorem at the slice \<open>ftp://Example\<close>, which is safe.\<close>

theorem issafe_iff_prefix_witness:
  "length ''ftp://Example'' \<le> SIZE_MAX \<and>
   autolink_issafe ''ftp://Example'' (length ''ftp://Example'') = Inr True \<and>
   begins_nocase ''ftp://Example'' ''ftp://'' \<and> isalnum (''ftp://Example'' ! length ''ftp://'')"
proof -
  have h: "length ''ftp://Example'' \<le> SIZE_MAX" by (simp add: SIZE_MAX_def)
  show ?thesis
    using h issafe_iff_prefix [OF h]
    by (simp add: begins_nocase_def eq_nocase_def ctype_eval)
qed

text \<open>
  C10.  On the buffer \<open>www.foo\<close> with the trigger at 0, \<open>autolink__www\<close> succeeds with the
  span \<open>[0, 7)\<close>, although no dot follows the prefix \<open>www.\<close>: the dot of the prefix
  itself is the one \<open>check_domain\<close> counts, and started after the prefix it finds none.
\<close>

theorem www_dotless_label:
  "autolink__www link ''www.foo'' 0 7 flags = Inr (True, \<lparr>start = 0, end' = 7\<rparr>) \<and>
   CHR ''.'' \<notin> set (drop 4 ''www.foo'') \<and>
   check_domain ''www.foo'' 7 \<lparr>start = 0, end' = 0\<rparr> False = Inr (True, \<lparr>start = 0, end' = 6\<rparr>) \<and>
   check_domain ''www.foo'' 7 \<lparr>start = 4, end' = 0\<rparr> False = Inr (False, \<lparr>start = 4, end' = 6\<rparr>)"
  by (simp add: run_eval ctype_eval)

end
